theory Spec2Isabelle
  imports Complex_Main "HOL-Library.Log_Nat"
begin

chapter \<open>Mooney M20J VREF calculator: performance interpolation and TAF text extraction\<close>

text \<open>
  A shallow embedding of the algorithmic core of the calculator: the piecewise-linear
  interpolation of stall speeds over a weight table and the derived approach and
  manoeuvring speeds (\<^verbatim>\<open>components/CalculatorSection.tsx\<close>), the gust extractor and the
  TAF text parser (the weather service module), and the selection of the active TAF
  entry (\<^verbatim>\<open>components/WeatherSection.tsx\<close>).

  Conventions of the embedding.
  \<^item> A JavaScript \<^verbatim>\<open>number\<close> that holds a weight or a speed is a \<^typ>\<open>real\<close>: the
    arithmetic is the exact one, IEEE rounding, infinities and NaN of such values are
    not modelled. A \<^verbatim>\<open>number\<close> produced by \<^verbatim>\<open>parseInt\<close> is a value of the
    datatype \<open>jsnum\<close>, which keeps NaN apart from the integers.
  \<^item> A JavaScript string is a \<^typ>\<open>string\<close>, one \<^typ>\<open>char\<close> per code unit, so the
    model covers the strings whose code units are below 256. In that range the class
    \<^verbatim>\<open>\s\<close> and \<^verbatim>\<open>trim\<close> recognise the code units 9 to 13, 32 and 160.
  \<^item> \<^verbatim>\<open>null\<close> and \<^verbatim>\<open>undefined\<close> are \<open>None\<close>; an index of \<^verbatim>\<open>-1\<close> returned by
    \<^verbatim>\<open>indexOf\<close> is \<open>None\<close> as well.
  \<^item> A \<^verbatim>\<open>TypeError\<close> raised by reading a property of \<^verbatim>\<open>undefined\<close> is the value
    \<open>Inl TypeError\<close>.
\<close>

section \<open>Definitions: performance interpolation\<close>







subsection \<open>Strings\<close>

text \<open>\<^verbatim>\<open>s.startsWith(p)\<close> and \<^verbatim>\<open>s.includes(p)\<close>.\<close>

definition startsWith :: "string \<Rightarrow> string \<Rightarrow> bool" where
  "startsWith s p = (take (length p) s = p)"

fun str_includes :: "string \<Rightarrow> string \<Rightarrow> bool" where
  "str_includes [] p = (p = [])"
| "str_includes (c # cs) p = (startsWith (c # cs) p \<or> str_includes cs p)"

subsection \<open>Profiles and the performance computation\<close>















section \<open>Definitions: double arithmetic\<close>

text \<open>
  Where a claim is about the exact value or the order of results, the arithmetic of
  \<^verbatim>\<open>interpolate\<close> is modelled as the code performs it: on IEEE 754 binary64 numbers, every
  operation rounded to the nearest double, a tie going to the even neighbour. A finite
  double is a real number \<open>m * 2 ^ k / 2 ^ 1074\<close> with an integer \<open>m\<close> of magnitude
  below \<open>2 ^ 53\<close>; the subnormal numbers and the normal numbers of the least exponent are
  those with \<open>k = 0\<close>. Overflow to an infinity is not modelled: the statements are about
  tables whose weights and speeds are far below the largest double.
\<close>

text \<open>The integer nearest to a real number, a tie going to the even integer.\<close>

definition round_half_even :: "real \<Rightarrow> int" where
  "round_half_even x =
     (let f = \<lfloor>x\<rfloor>; r = x - of_int f
      in if r < 1 / 2 then f else if 1 / 2 < r then f + 1
         else if even f then f else f + 1)"

text \<open>For a number \<open>t\<close> in units of \<open>2 ^ - 1074\<close>: the exponent \<open>k\<close> of the spacing \<open>2 ^ k\<close> of the
  doubles around \<open>t\<close>. It is 0 up to \<open>2 ^ 53\<close> and grows by one with each doubling.\<close>

definition ulp_exp :: "real \<Rightarrow> nat" where
  "ulp_exp t = nat (bitlen \<lfloor>\<bar>t\<bar>\<rfloor> - 53)"

definition round_scaled :: "real \<Rightarrow> real" where
  "round_scaled t = of_int (round_half_even (t / 2 ^ ulp_exp t)) * 2 ^ ulp_exp t"

text \<open>The double nearest to a real number.\<close>

definition round64 :: "real \<Rightarrow> real" where
  "round64 x = round_scaled (x * 2 ^ 1074) / 2 ^ 1074"

definition is_double :: "real \<Rightarrow> bool" where
  "is_double v = (round64 v = v)"









section \<open>Definitions: text primitives\<close>

subsection \<open>Character classes and \<^verbatim>\<open>parseInt\<close>\<close>

text \<open>The class \<^verbatim>\<open>[0-9]\<close>, and the class \<^verbatim>\<open>\s\<close> restricted to code units below 256
  (tab, line feed, vertical tab, form feed, carriage return, space, no-break space);
  \<^verbatim>\<open>trim\<close> and \<^verbatim>\<open>parseInt\<close> strip the same characters.\<close>

definition is_digit :: "char \<Rightarrow> bool" where
  "is_digit c = (c \<in> set ''0123456789'')"

definition is_space :: "char \<Rightarrow> bool" where
  "is_space c = (c \<in> set [CHR 0x09, CHR 0x0A, CHR 0x0B, CHR 0x0C, CHR 0x0D, CHR '' '', CHR 0xA0])"

definition digit_val :: "char \<Rightarrow> nat" where
  "digit_val c = of_char c - 48"

text \<open>A JavaScript number produced by \<^verbatim>\<open>parseInt\<close>: an integer or NaN.\<close>

datatype jsnum = Num int | NaN

definition dec_value :: "string \<Rightarrow> nat" where
  "dec_value ds = foldl (\<lambda>n c. 10 * n + digit_val c) 0 ds"

text \<open>\<^verbatim>\<open>parseInt(s, 10)\<close>: leading white space is skipped, one sign is read, and the longest
  run of decimal digits that follows is the value; with no digit the result is NaN.\<close>

definition parseInt :: "string \<Rightarrow> jsnum" where
  "parseInt s =
     (let t = dropWhile is_space s;
          neg = (t \<noteq> [] \<and> hd t = CHR ''-'');
          u = (if t \<noteq> [] \<and> (hd t = CHR ''-'' \<or> hd t = CHR ''+'') then tl t else t);
          ds = takeWhile is_digit u
      in if ds = [] then NaN
         else Num (if neg then - int (dec_value ds) else int (dec_value ds)))"

text \<open>\<^verbatim>\<open>s.substring(a, b)\<close> for \<^verbatim>\<open>0 <= a <= b\<close>, and \<^verbatim>\<open>s.trim()\<close>.\<close>

definition substring :: "string \<Rightarrow> nat \<Rightarrow> nat \<Rightarrow> string" where
  "substring s a b = take (b - a) (drop a s)"

definition trim :: "string \<Rightarrow> string" where
  "trim s = rev (dropWhile is_space (rev (dropWhile is_space s)))"

subsection \<open>Searching\<close>

text \<open>The least index at which the rest of the string satisfies \<open>P\<close>, counted from \<open>i\<close>:
  the scan of \<^verbatim>\<open>indexOf\<close> and of an unanchored regular expression.\<close>

fun search_index :: "(string \<Rightarrow> bool) \<Rightarrow> string \<Rightarrow> nat \<Rightarrow> nat option" where
  "search_index P [] i = (if P [] then Some i else None)"
| "search_index P (c # cs) i = (if P (c # cs) then Some i else search_index P cs (Suc i))"

text \<open>\<^verbatim>\<open>s.indexOf(p, from)\<close>; \<open>None\<close> is \<^verbatim>\<open>-1\<close>. A start beyond the end is the end.\<close>

definition indexOf :: "string \<Rightarrow> string \<Rightarrow> nat \<Rightarrow> nat option" where
  "indexOf s p from = search_index (\<lambda>t. startsWith t p) (drop from s) (min from (length s))"

subsection \<open>Fixed-width patterns\<close>

text \<open>The regular expressions of the weather service are sequences of literal characters
  and \<^verbatim>\<open>[0-9]\<close>, apart from the tag and white-space expressions handled below.\<close>

datatype cls = Lit char | Digit

fun cls_ok :: "cls \<Rightarrow> char \<Rightarrow> bool" where
  "cls_ok (Lit a) c = (c = a)"
| "cls_ok Digit c = is_digit c"

fun matches_at :: "cls list \<Rightarrow> string \<Rightarrow> bool" where
  "matches_at [] s = True"
| "matches_at (p # ps) [] = False"
| "matches_at (p # ps) (c # cs) = (cls_ok p c \<and> matches_at ps cs)"

definition lit :: "string \<Rightarrow> cls list" where
  "lit s = map Lit s"

definition digits :: "nat \<Rightarrow> cls list" where
  "digits n = replicate n Digit"

text \<open>\<^verbatim>\<open>FM[0-9]{6}\<close>, \<^verbatim>\<open>BECMG [0-9]{4}\/[0-9]{4}\<close>, \<^verbatim>\<open>TEMPO [0-9]{4}\/[0-9]{4}\<close> and
  \<^verbatim>\<open>PROB[0-9]{2} [0-9]{4}\/[0-9]{4}\<close>.\<close>

definition pat_FM :: "cls list" where
  "pat_FM = lit ''FM'' @ digits 6"

definition pat_BECMG :: "cls list" where
  "pat_BECMG = lit ''BECMG '' @ digits 4 @ lit ''/'' @ digits 4"

definition pat_TEMPO :: "cls list" where
  "pat_TEMPO = lit ''TEMPO '' @ digits 4 @ lit ''/'' @ digits 4"

definition pat_PROB :: "cls list" where
  "pat_PROB = lit ''PROB'' @ digits 2 @ lit '' '' @ digits 4 @ lit ''/'' @ digits 4"

subsection \<open>Global replacements\<close>

text \<open>\<^verbatim>\<open>s.replace(/(pat)/g, '\n$1')\<close>: the string is scanned from the left; where the
  pattern matches, a line feed is written before the match, the match is copied and the
  scan goes on behind it. The counter is the number of characters of the current match
  still to be copied.\<close>

fun insert_nl :: "cls list \<Rightarrow> nat \<Rightarrow> string \<Rightarrow> string" where
  "insert_nl p k [] = []"
| "insert_nl p k (c # cs) =
     (if k = 0 \<and> matches_at p (c # cs) then CHR 0x0A # c # insert_nl p (length p - 1) cs
      else c # insert_nl p (k - 1) cs)"

definition replace_nl :: "cls list \<Rightarrow> string \<Rightarrow> string" where
  "replace_nl p s = insert_nl p 0 s"

text \<open>\<^verbatim>\<open>s.replace(/<[^>]*>/g, ' ')\<close>: a \<^verbatim>\<open><\<close> with a \<^verbatim>\<open>>\<close> somewhere behind it opens a
  tag that ends at the first such \<^verbatim>\<open>>\<close>; the tag becomes one space. The flag says that
  the scan is inside a tag.\<close>

fun strip_tags_from :: "bool \<Rightarrow> string \<Rightarrow> string" where
  "strip_tags_from inside [] = []"
| "strip_tags_from True (c # cs) =
     (if c = CHR ''>'' then strip_tags_from False cs else strip_tags_from True cs)"
| "strip_tags_from False (c # cs) =
     (if c = CHR ''<'' \<and> CHR ''>'' \<in> set cs then CHR '' '' # strip_tags_from True cs
      else c # strip_tags_from False cs)"

definition strip_tags :: "string \<Rightarrow> string" where
  "strip_tags s = strip_tags_from False s"

text \<open>\<^verbatim>\<open>s.replace(/\s+/g, ' ')\<close>: every maximal run of white space becomes one space. The
  flag says that the previous character belonged to a run.\<close>

fun collapse_from :: "bool \<Rightarrow> string \<Rightarrow> string" where
  "collapse_from inrun [] = []"
| "collapse_from inrun (c # cs) =
     (if is_space c then (if inrun then collapse_from True cs else CHR '' '' # collapse_from True cs)
      else c # collapse_from False cs)"

definition collapse_ws :: "string \<Rightarrow> string" where
  "collapse_ws s = collapse_from False s"

text \<open>\<^verbatim>\<open>s.split('\n')\<close>.\<close>

fun split_nl :: "string \<Rightarrow> string list" where
  "split_nl [] = [[]]"
| "split_nl (c # cs) =
     (if c = CHR 0x0A then [] # split_nl cs
      else (case split_nl cs of
              [] \<Rightarrow> [[c]]
            | x # xs \<Rightarrow> (c # x) # xs))"

section \<open>Definitions: gust extraction and the TAF parser\<close>

subsection \<open>\<^verbatim>\<open>extractGust\<close>\<close>

text \<open>The expression \<^verbatim>\<open>([0-9]{3}|VRB)([0-9]{2,3})G([0-9]{2,3})KT\<close> at a fixed position. A
  backtracking matcher tries the alternatives of the first group in their order and the
  greedy counts 3 then 2 of the second and third group; the list below is that order.
  The result is the text of the third group.\<close>

definition gust_alternatives :: "(cls list \<times> nat \<times> nat) list" where
  "gust_alternatives =
     [(g1, n2, n3). g1 \<leftarrow> [digits 3, lit ''VRB''], n2 \<leftarrow> [3, 2], n3 \<leftarrow> [3, 2]]"

definition gust_pattern :: "cls list \<times> nat \<times> nat \<Rightarrow> cls list" where
  "gust_pattern a = (case a of (g1, n2, n3) \<Rightarrow> g1 @ digits n2 @ lit ''G'' @ digits n3 @ lit ''KT'')"

definition gust_match_at :: "string \<Rightarrow> string option" where
  "gust_match_at s =
     (case find (\<lambda>a. matches_at (gust_pattern a) s) gust_alternatives of
        None \<Rightarrow> None
      | Some (g1, n2, n3) \<Rightarrow> Some (take n3 (drop (3 + n2 + 1) s)))"

text \<open>\<^verbatim>\<open>text.match(...)\<close> without the global flag: the leftmost position with a match.\<close>

fun gust_search :: "string \<Rightarrow> string option" where
  "gust_search [] = gust_match_at []"
| "gust_search (c # cs) =
     (case gust_match_at (c # cs) of Some g \<Rightarrow> Some g | None \<Rightarrow> gust_search cs)"

text \<open>\<^verbatim>\<open>extractGust\<close>: \<^verbatim>\<open>match && match[3]\<close> holds when there is a match whose third group
  is not the empty string.\<close>

definition extractGust :: "string \<Rightarrow> jsnum option" where
  "extractGust text =
     (case gust_search text of
        Some g \<Rightarrow> if g \<noteq> [] then Some (parseInt g) else None
      | None \<Rightarrow> None)"

subsection \<open>\<^verbatim>\<open>parseTaf\<close>\<close>

datatype TafType = BASE | FM | TEMPO | BECMG | HEADER

record TafEntry =
  raw :: string
  gust :: "jsnum option"
  type :: TafType
  day :: "jsnum option"
  hour :: "jsnum option"

text \<open>Step 1: tags become spaces, runs of white space become one space.\<close>

definition cleanText :: "string \<Rightarrow> string" where
  "cleanText rawHtml = collapse_ws (strip_tags rawHtml)"

text \<open>Step 2: the start of the TAF, by the two literal prefixes and then by the first
  match of \<^verbatim>\<open>(FM[0-9]{6}|BECMG [0-9]{4}\/[0-9]{4})\<close>.\<close>

definition tafStart :: "string \<Rightarrow> string \<Rightarrow> nat option" where
  "tafStart clean code =
     (case indexOf clean (''TAF: '' @ code) 0 of
        Some i \<Rightarrow> Some i
      | None \<Rightarrow>
          (case indexOf clean (''TAF '' @ code) 0 of
             Some i \<Rightarrow> Some i
           | None \<Rightarrow> search_index (\<lambda>t. matches_at pat_FM t \<or> matches_at pat_BECMG t) clean 0))"

text \<open>Step 3: the block ends at the least index of a stop marker found from index 10 on.\<close>

definition stopMarkers :: "string list" where
  "stopMarkers = [''METAR'', ''OBSERVATION'', ''Copyright'', ''Key to Decoding'']"

definition endIndex :: "string \<Rightarrow> nat" where
  "endIndex tafBlock =
     foldl (\<lambda>e m. case indexOf tafBlock m 10 of
                     Some idx \<Rightarrow> if idx < e then idx else e
                   | None \<Rightarrow> e)
           (length tafBlock) stopMarkers"

text \<open>Step 4: the four replacements in their order, the split, the trim and the filter.\<close>

definition formattedTaf :: "string \<Rightarrow> string" where
  "formattedTaf tafBlock =
     replace_nl pat_PROB (replace_nl pat_TEMPO (replace_nl pat_BECMG (replace_nl pat_FM tafBlock)))"

definition tafLines :: "string \<Rightarrow> string list" where
  "tafLines tafBlock = filter (\<lambda>l. length l > 5) (map trim (split_nl (formattedTaf tafBlock)))"

text \<open>Step 5: the callback of \<^verbatim>\<open>lines.map\<close>.\<close>

definition tafEntry :: "string \<Rightarrow> nat \<Rightarrow> TafEntry" where
  "tafEntry line index =
     (if startsWith line ''FM'' then
        \<lparr>raw = line, gust = extractGust line, type = FM,
         day = Some (parseInt (substring line 2 4)), hour = Some (parseInt (substring line 4 6))\<rparr>
      else if startsWith line ''TEMPO'' then
        \<lparr>raw = line, gust = extractGust line, type = TEMPO,
         day = Some (parseInt (substring line 6 8)), hour = Some (parseInt (substring line 8 10))\<rparr>
      else if startsWith line ''BECMG'' then
        \<lparr>raw = line, gust = extractGust line, type = BECMG,
         day = Some (parseInt (substring line 6 8)), hour = Some (parseInt (substring line 8 10))\<rparr>
      else if startsWith line ''TAF'' \<or> index = 0 then
        \<lparr>raw = line, gust = extractGust line, type = HEADER, day = None, hour = None\<rparr>
      else
        \<lparr>raw = line, gust = extractGust line, type = BASE, day = None, hour = None\<rparr>)"

definition parseTaf :: "string \<Rightarrow> string \<Rightarrow> TafEntry list" where
  "parseTaf rawHtml code =
     (let clean = cleanText rawHtml in
      case tafStart clean code of
        None \<Rightarrow> []
      | Some start \<Rightarrow>
          let tafBlock = drop start clean;
              lines = tafLines (take (endIndex tafBlock) tafBlock)
          in map (\<lambda>(line, index). tafEntry line index) (zip lines [0..<length lines]))"

subsection \<open>The gust pattern in the words of the specification\<close>

text \<open>An occurrence of the wind group in a text: three digits or the literal \<^verbatim>\<open>VRB\<close>, two
  or three digits, \<^verbatim>\<open>G\<close>, two or three digits, \<^verbatim>\<open>KT\<close>. These definitions follow the
  specification, not the code; the theorems compare them with \<open>extractGust\<close>.\<close>

definition gust_group1 :: "string \<Rightarrow> bool" where
  "gust_group1 g = ((length g = 3 \<and> list_all is_digit g) \<or> g = ''VRB'')"

definition gust_digits :: "string \<Rightarrow> bool" where
  "gust_digits g = ((length g = 2 \<or> length g = 3) \<and> list_all is_digit g)"

definition gust_occurrence :: "string \<Rightarrow> string \<Rightarrow> string \<Rightarrow> string \<Rightarrow> string \<Rightarrow> string \<Rightarrow> bool" where
  "gust_occurrence text pre g1 g2 g3 post =
     (text = pre @ g1 @ g2 @ ''G'' @ g3 @ ''KT'' @ post \<and>
      gust_group1 g1 \<and> gust_digits g2 \<and> gust_digits g3)"

subsection \<open>The start markers in the words of the specification\<close>

text \<open>\<^verbatim>\<open>FM\<close> followed by six digits, and \<^verbatim>\<open>BECMG\<close> followed by a time range
  \<^verbatim>\<open>####/####\<close>; a text contains a word when the word stands somewhere inside it.\<close>

definition is_FM_marker :: "string \<Rightarrow> bool" where
  "is_FM_marker m = (\<exists>d. m = ''FM'' @ d \<and> length d = 6 \<and> list_all is_digit d)"

definition is_BECMG_marker :: "string \<Rightarrow> bool" where
  "is_BECMG_marker m =
     (\<exists>a b. m = ''BECMG '' @ a @ ''/'' @ b \<and> length a = 4 \<and> length b = 4 \<and>
            list_all is_digit a \<and> list_all is_digit b)"

definition contains :: "string \<Rightarrow> string \<Rightarrow> bool" where
  "contains s w = (\<exists>pre post. s = pre @ w @ post)"

text \<open>A page on which a line break stands between the two parts of the start marker:
  a tag, \<^verbatim>\<open>TAF:\<close>, a tag, a line feed, and the station code with the forecast.\<close>

definition broken_prefix_html :: string where
  "broken_prefix_html = ''<b>TAF:</b>'' @ [CHR 0x0A] @ ''KMIE 1212/1312 18012KT''"

subsection \<open>Line heads\<close>

text \<open>The beginnings that a line of the split block can have: the first characters of a
  match of one of the four group markers, or the \<^verbatim>\<open>TA\<close> of the literal start marker.
  They are used to state the invariant of the splitting step.\<close>

definition head_FM :: "cls list" where
  "head_FM = lit ''FM'' @ digits 4"

definition head_BECMG :: "cls list" where
  "head_BECMG = lit ''BECMG '' @ digits 4"

definition head_TEMPO :: "cls list" where
  "head_TEMPO = lit ''TEMPO '' @ digits 4"

definition head_PROB :: "cls list" where
  "head_PROB = lit ''PR''"

definition head_TAF :: "cls list" where
  "head_TAF = lit ''TA''"

text \<open>\<open>after_nl G s\<close>: in \<open>s\<close>, what follows a line feed satisfies \<open>G\<close>.\<close>

fun after_nl :: "(string \<Rightarrow> bool) \<Rightarrow> string \<Rightarrow> bool" where
  "after_nl G [] = True"
| "after_nl G (c # cs) = ((c = CHR 0x0A \<longrightarrow> G cs) \<and> after_nl G cs)"

text \<open>The heads that can follow a line feed after each of the four replacements, the
  beginnings of the block handed to the first replacement, and the pieces of the split.\<close>

definition stage1 :: "string \<Rightarrow> bool" where
  "stage1 u = matches_at head_FM u"

definition stage2 :: "string \<Rightarrow> bool" where
  "stage2 u = (matches_at head_FM u \<or> matches_at head_BECMG u)"

definition stage3 :: "string \<Rightarrow> bool" where
  "stage3 u = (matches_at head_FM u \<or> matches_at head_BECMG u \<or> matches_at head_TEMPO u)"

definition stage4 :: "string \<Rightarrow> bool" where
  "stage4 u = (matches_at head_FM u \<or> matches_at head_BECMG u \<or> matches_at head_TEMPO u \<or>
     matches_at head_PROB u)"

definition line_start :: "string \<Rightarrow> bool" where
  "line_start s = ((s \<noteq> [] \<and> hd s = CHR 0x0A) \<or> matches_at head_TAF s \<or>
     matches_at head_FM s \<or> matches_at head_BECMG s)"

definition piece_ok :: "string \<Rightarrow> bool" where
  "piece_ok x = (x = [] \<or> matches_at head_TAF x \<or> stage4 x)"

subsection \<open>Day and hour fields\<close>

text \<open>\<open>two_digit_field line off v\<close>: the two characters of \<open>line\<close> at offset \<open>off\<close> are
  decimal digits and \<open>v\<close> is the number they denote, a number from 0 to 99.\<close>

definition two_digit_field :: "string \<Rightarrow> nat \<Rightarrow> jsnum option \<Rightarrow> bool" where
  "two_digit_field line off v =
     (let ds = substring line off (off + 2)
      in length ds = 2 \<and> list_all is_digit ds \<and> v = Some (Num (int (dec_value ds))) \<and>
         dec_value ds \<le> 99)"

section \<open>Definitions: the active TAF entry\<close>

subsection \<open>Time values\<close>

text \<open>A \<^verbatim>\<open>Date\<close> is its time value, the milliseconds since the epoch; an invalid date (time
  value NaN) is \<open>None\<close>. The functions below are the abstract operations of the ECMAScript
  specification of \<^verbatim>\<open>Date\<close> (\<^verbatim>\<open>Day\<close>, \<^verbatim>\<open>DayFromYear\<close>, \<^verbatim>\<open>YearFromTime\<close>,
  \<^verbatim>\<open>MonthFromTime\<close>, \<^verbatim>\<open>DateFromTime\<close>, \<^verbatim>\<open>MakeDay\<close>, \<^verbatim>\<open>MakeDate\<close>, \<^verbatim>\<open>TimeClip\<close>) on
  integers.\<close>

definition msPerDay :: int where
  "msPerDay = 86400000"

definition Day :: "int \<Rightarrow> int" where
  "Day t = t div msPerDay"

definition TimeWithinDay :: "int \<Rightarrow> int" where
  "TimeWithinDay t = t mod msPerDay"

definition DaysInYear :: "int \<Rightarrow> int" where
  "DaysInYear y =
     (if y mod 4 \<noteq> 0 then 365 else if y mod 100 \<noteq> 0 then 366
      else if y mod 400 \<noteq> 0 then 365 else 366)"

definition DayFromYear :: "int \<Rightarrow> int" where
  "DayFromYear y = 365 * (y - 1970) + (y - 1969) div 4 - (y - 1901) div 100 + (y - 1601) div 400"

text \<open>\<^verbatim>\<open>YearFromTime(t)\<close> is the largest year \<open>y\<close> with \<open>DayFromYear y \<le> Day t\<close>. It is one of
  three years around the estimate by the mean length of a year (146097 days in 400
  years); the lemma \<open>YearFromTime_largest\<close> shows that the choice below is that year.\<close>

definition YearFromTime :: "int \<Rightarrow> int" where
  "YearFromTime t =
     (let d = Day t; c = 1970 + (d * 400) div 146097
      in if DayFromYear (c + 1) \<le> d then c + 1
         else if DayFromYear c \<le> d then c else c - 1)"

definition InLeapYear :: "int \<Rightarrow> int" where
  "InLeapYear t = (if DaysInYear (YearFromTime t) = 366 then 1 else 0)"

text \<open>The day within the year on which month \<open>m\<close> (0 to 11) begins; \<open>m = 12\<close> is the end of
  the year.\<close>

definition month_start :: "int \<Rightarrow> int \<Rightarrow> int" where
  "month_start leap m =
     (if m = 0 then 0 else if m = 1 then 31 else if m = 2 then 59 + leap
      else if m = 3 then 90 + leap else if m = 4 then 120 + leap
      else if m = 5 then 151 + leap else if m = 6 then 181 + leap
      else if m = 7 then 212 + leap else if m = 8 then 243 + leap
      else if m = 9 then 273 + leap else if m = 10 then 304 + leap
      else if m = 11 then 334 + leap else 365 + leap)"

definition DayWithinYear :: "int \<Rightarrow> int" where
  "DayWithinYear t = Day t - DayFromYear (YearFromTime t)"

definition MonthFromTime :: "int \<Rightarrow> int" where
  "MonthFromTime t =
     (let dwy = DayWithinYear t; leap = InLeapYear t
      in int (length (filter (\<lambda>m. month_start leap m \<le> dwy) [1, 2, 3, 4, 5, 6, 7, 8, 9, 10, 11])))"

definition DateFromTime :: "int \<Rightarrow> int" where
  "DateFromTime t = DayWithinYear t - month_start (InLeapYear t) (MonthFromTime t) + 1"

definition MakeDay :: "int \<Rightarrow> int \<Rightarrow> int \<Rightarrow> int" where
  "MakeDay year month date =
     (let ym = year + month div 12; mn = month mod 12;
          leap = (if DaysInYear ym = 366 then 1 else 0)
      in DayFromYear ym + month_start leap mn + date - 1)"

definition MakeDate :: "int \<Rightarrow> int \<Rightarrow> int" where
  "MakeDate dy tm = dy * msPerDay + tm"

definition TimeClip :: "int \<Rightarrow> int option" where
  "TimeClip t = (if \<bar>t\<bar> > 8640000000000000 then None else Some t)"

text \<open>\<^verbatim>\<open>Date.UTC(year, month, date, hours, minutes)\<close> on integers; a year from 0 to 99 means
  1900 plus that year.\<close>

definition Date_UTC :: "int \<Rightarrow> int \<Rightarrow> int \<Rightarrow> int \<Rightarrow> int \<Rightarrow> int option" where
  "Date_UTC year month date hours minutes =
     (let yr = (if 0 \<le> year \<and> year \<le> 99 then 1900 + year else year)
      in TimeClip (MakeDate (MakeDay yr month date) (hours * 3600000 + minutes * 60000)))"

text \<open>The time value of \<^verbatim>\<open>d\<close> after \<^verbatim>\<open>d.setUTCMonth(d.getUTCMonth() + k)\<close>; an invalid date
  stays invalid.\<close>

definition setUTCMonth_by :: "int option \<Rightarrow> int \<Rightarrow> int option" where
  "setUTCMonth_by d k =
     (case d of
        None \<Rightarrow> None
      | Some t \<Rightarrow>
          TimeClip (MakeDate (MakeDay (YearFromTime t) (MonthFromTime t + k) (DateFromTime t))
                             (TimeWithinDay t)))"

subsection \<open>\<^verbatim>\<open>getActiveTafIndex\<close>\<close>

text \<open>\<^verbatim>\<open>getEntryDate\<close>, with the current time \<open>now\<close> as a time value. An entry without day or
  hour starts at the epoch. A day or hour that is NaN gives an invalid date: the
  comparisons with NaN are false, or \<^verbatim>\<open>setUTCMonth\<close> is applied to an invalid date.\<close>

definition getEntryDate :: "int \<Rightarrow> TafEntry \<Rightarrow> int option" where
  "getEntryDate now entry =
     (case (day entry, hour entry) of
        (None, _) \<Rightarrow> Some 0
      | (_, None) \<Rightarrow> Some 0
      | (Some (Num dy), Some (Num hr)) \<Rightarrow>
          (let currentYear = YearFromTime now;
               currentMonth = MonthFromTime now;
               d = Date_UTC currentYear currentMonth dy hr 0;
               currentDay = DateFromTime now
           in if dy < currentDay \<and> currentDay - dy > 15 then setUTCMonth_by d 1
              else if dy > currentDay \<and> dy - currentDay > 15 then setUTCMonth_by d (- 1)
              else d)
      | _ \<Rightarrow> None)"

text \<open>The callback of \<^verbatim>\<open>tafData.forEach\<close> with the running \<^verbatim>\<open>activeIndex\<close>; \<^verbatim>\<open>entryDate <= now\<close>
  is false for an invalid date.\<close>

fun active_loop :: "int \<Rightarrow> TafEntry list \<Rightarrow> nat \<Rightarrow> int \<Rightarrow> int" where
  "active_loop now [] idx activeIndex = activeIndex"
| "active_loop now (line # rest) idx activeIndex =
     (if type line = HEADER \<and> idx \<noteq> 0 then active_loop now rest (Suc idx) activeIndex
      else if type line = FM \<or> type line = BASE \<or> type line = HEADER then
        (case getEntryDate now line of
           Some entryDate \<Rightarrow>
             if entryDate \<le> now then active_loop now rest (Suc idx) (int idx)
             else active_loop now rest (Suc idx) activeIndex
         | None \<Rightarrow> active_loop now rest (Suc idx) activeIndex)
      else active_loop now rest (Suc idx) activeIndex)"

definition getActiveTafIndex :: "int \<Rightarrow> TafEntry list \<Rightarrow> int" where
  "getActiveTafIndex now tafData = (if tafData = [] then - 1 else active_loop now tafData 0 (- 1))"

subsection \<open>Candidates in the words of the specification\<close>

text \<open>An entry is a candidate by its kind (a HEADER entry only in the first position, as the
  loop skips the others), and it has started when its start time is not after \<open>now\<close>.\<close>

definition is_candidate :: "TafEntry \<Rightarrow> nat \<Rightarrow> bool" where
  "is_candidate e idx = (type e = FM \<or> type e = BASE \<or> (type e = HEADER \<and> idx = 0))"

definition has_started :: "int \<Rightarrow> TafEntry \<Rightarrow> bool" where
  "has_started now e = (case getEntryDate now e of Some t \<Rightarrow> t \<le> now | None \<Rightarrow> False)"

text \<open>A forecast with a PROB group behind an FM group, and a moment on the 12th of November
  2026 at 19:00 UTC.\<close>

definition prob_after_fm :: "TafEntry list" where
  "prob_after_fm =
     [\<lparr>raw = ''TAF KMIE 121130Z 1212/1312 18012KT'', gust = None, type = HEADER,
       day = None, hour = None\<rparr>,
      \<lparr>raw = ''FM121800 20015G22KT'', gust = Some (Num 22), type = FM,
       day = Some (Num 12), hour = Some (Num 18)\<rparr>,
      \<lparr>raw = ''PROB30 1300/1302 22010KT'', gust = None, type = BASE,
       day = None, hour = None\<rparr>]"

definition nov12_1900 :: int where
  "nov12_1900 = 1794510000000"

text \<open>Two hours earlier, 17:00 UTC on the same day, and the start of the FM group, 18:00 UTC.\<close>

definition nov12_1700 :: int where
  "nov12_1700 = 1794502800000"

definition nov12_1800 :: int where
  "nov12_1800 = 1794506400000"

section \<open>Theorems: performance interpolation\<close>













subsection \<open>The interpolation formula\<close>



subsection \<open>Approach speed, manoeuvring speed and buffer\<close>




section \<open>Theorems: interpolation in double arithmetic\<close>

subsection \<open>Rounding to the nearest double\<close>


lemma rhe_of_int: "round_half_even (of_int n) = n"
  by (simp add: round_half_even_def Let_def)





lemma ulp_exp_lower:
  assumes "0 < ulp_exp t"
  shows "2 ^ (ulp_exp t + 52) \<le> \<bar>t\<bar>"
proof -
  define N where "N = \<lfloor>\<bar>t\<bar>\<rfloor>"
  have b: "53 < bitlen N"
    using assms by (simp add: ulp_exp_def N_def)
  have N: "0 < N"
  proof (rule ccontr)
    assume "\<not> 0 < N"
    moreover have "0 \<le> N"
      by (simp add: N_def)
    ultimately have "N = 0"
      by simp
    with b show False
      by simp
  qed
  have "nat (bitlen N - 1) = ulp_exp t + 52"
    using b by (simp add: ulp_exp_def N_def)
  hence "2 ^ (ulp_exp t + 52) \<le> N"
    using bitlen_bounds [OF N] by simp
  hence le: "(of_int (2 ^ (ulp_exp t + 52)) :: real) \<le> of_int N"
    by (simp only: of_int_le_iff)
  have "(2::real) ^ (ulp_exp t + 52) = of_int (2 ^ (ulp_exp t + 52))"
    by simp
  also note le
  also have "of_int N \<le> \<bar>t\<bar>"
    unfolding N_def by linarith
  finally show ?thesis .
qed


lemma ulp_exp_le:
  assumes "\<bar>t\<bar> < 2 ^ (k + 53)"
  shows "ulp_exp t \<le> k"
proof (rule ccontr)
  assume "\<not> ulp_exp t \<le> k"
  hence lt: "k < ulp_exp t"
    by simp
  hence "0 < ulp_exp t"
    by simp
  hence "2 ^ (ulp_exp t + 52) \<le> \<bar>t\<bar>"
    by (rule ulp_exp_lower)
  also note assms
  finally have "(2::real) ^ (ulp_exp t + 52) < 2 ^ (k + 53)" .
  hence "ulp_exp t + 52 < k + 53"
    by simp
  with lt show False
    by simp
qed










lemma round_scaled_exact:
  assumes "\<bar>n\<bar> < 2 ^ 53"
  shows "round_scaled (of_int n * 2 ^ k) = of_int n * 2 ^ k"
proof -
  define t :: real where "t = of_int n * 2 ^ k"
  have "\<bar>of_int n :: real\<bar> < of_int (2 ^ 53)"
    using assms by (simp only: of_int_abs [symmetric] of_int_less_iff)
  hence "\<bar>t\<bar> < 2 ^ (k + 53)"
    by (simp add: t_def abs_mult power_add mult.commute)
  hence "ulp_exp t \<le> k"
    by (rule ulp_exp_le)
  then obtain d where d: "k = ulp_exp t + d"
    by (auto simp add: le_iff_add)
  have p: "(2::real) ^ k = 2 ^ d * 2 ^ ulp_exp t"
    by (subst d) (simp add: power_add)
  have "of_int n * (2::real) ^ k = of_int (n * 2 ^ d) * 2 ^ ulp_exp t"
    by (simp add: p)
  hence tt: "t = of_int (n * 2 ^ d) * 2 ^ ulp_exp t"
    by (simp only: t_def [symmetric])
  have "(of_int (n * 2 ^ d) :: real) * 2 ^ ulp_exp t / 2 ^ ulp_exp t = of_int (n * 2 ^ d)"
    by simp
  hence "t / 2 ^ ulp_exp t = of_int (n * 2 ^ d)"
    by (simp only: tt [symmetric])
  hence "round_half_even (t / 2 ^ ulp_exp t) = n * 2 ^ d"
    by (simp only: rhe_of_int)
  hence "round_scaled t = of_int (n * 2 ^ d) * 2 ^ ulp_exp t"
    by (simp only: round_scaled_def)
  also have "\<dots> = of_int n * (2 ^ d * 2 ^ ulp_exp t)"
    by simp
  also have "\<dots> = of_int n * 2 ^ k"
    by (simp only: p)
  finally show ?thesis
    by (simp only: t_def)
qed


lemma round64_unit:
  "\<exists>S::real. 0 < S \<and> S = 2 ^ 1074 \<and> (\<forall>x. round64 x = round_scaled (x * S) / S)"
proof (intro exI conjI allI)
  show "0 < (2::real) ^ 1074"
    by (rule zero_less_power) simp
  show "(2::real) ^ 1074 = 2 ^ 1074" ..
  show "round64 x = round_scaled (x * 2 ^ 1074) / 2 ^ 1074" for x
    by (simp only: round64_def)
qed



lemma round64_dyadic:
  assumes "\<bar>n\<bar> < 2 ^ 53" and "j \<le> 1074"
  shows "round64 (of_int n / 2 ^ j) = of_int n / 2 ^ j"
proof -
  obtain S :: real where S: "0 < S" and S2: "S = 2 ^ 1074"
    and r: "\<And>x. round64 x = round_scaled (x * S) / S"
    using round64_unit by blast
  obtain e where e: "1074 = j + e"
    using assms(2) by (auto simp add: le_iff_add)
  have p: "S = 2 ^ j * 2 ^ e"
    unfolding S2 by (subst e) (simp only: power_add)
  have "of_int n / 2 ^ j * S = of_int n * 2 ^ e"
    by (simp add: p)
  hence "round64 (of_int n / 2 ^ j) = round_scaled (of_int n * 2 ^ e) / S"
    by (simp only: r)
  also have "\<dots> = of_int n * 2 ^ e / S"
    using assms(1) by (simp only: round_scaled_exact)
  also have "\<dots> = of_int n / 2 ^ j"
    by (simp add: p)
  finally show ?thesis .
qed

lemma round64_int: "\<bar>n\<bar> < 2 ^ 53 \<Longrightarrow> round64 (of_int n) = of_int n"
  using round64_dyadic [of n 0] by simp






lemma is_double_dyadic: "\<bar>n\<bar> < 2 ^ 53 \<Longrightarrow> j \<le> 1074 \<Longrightarrow> is_double (of_int n / 2 ^ j)"
  by (simp add: is_double_def round64_dyadic)

lemma is_double_int: "\<bar>n\<bar> < 2 ^ 53 \<Longrightarrow> is_double (of_int n)"
  by (simp add: is_double_def round64_int)




subsection \<open>The operations of \<^verbatim>\<open>interpolate\<close> on doubles\<close>






















subsection \<open>The example tables\<close>















subsection \<open>Clamping at the boundary samples\<close>




subsection \<open>Monotonicity between two samples\<close>




section \<open>Theorems: patterns and gust extraction\<close>

lemma matches_at_append:
  "matches_at (p @ q) s \<longleftrightarrow> matches_at p s \<and> matches_at q (drop (length p) s)"
  by (induction p s rule: matches_at.induct) auto

lemma matches_at_length: "matches_at p s \<Longrightarrow> length p \<le> length s"
  by (induction p s rule: matches_at.induct) auto

lemma matches_at_lit: "matches_at (lit w) s \<longleftrightarrow> take (length w) s = w"
  unfolding lit_def
proof (induction w arbitrary: s)
  case Nil
  show ?case by simp
next
  case (Cons a w)
  show ?case by (cases s) (auto simp: Cons.IH)
qed

lemma matches_at_digits:
  "matches_at (digits n) s \<longleftrightarrow> n \<le> length s \<and> list_all is_digit (take n s)"
  unfolding digits_def
proof (induction n arbitrary: s)
  case 0
  show ?case by simp
next
  case (Suc n)
  show ?case by (cases s) (auto simp: Suc.IH)
qed

lemma length_lit [simp]: "length (lit w) = length w"
  by (simp add: lit_def)

lemma length_digits [simp]: "length (digits n) = n"
  by (simp add: digits_def)

lemma is_digit_not_space: "is_digit c \<Longrightarrow> \<not> is_space c"
  by (auto simp: is_digit_def is_space_def)

lemma parseInt_digits:
  assumes "list_all is_digit g" "g \<noteq> []"
  shows "parseInt g = Num (int (dec_value g))"
proof -
  obtain c cs where g: "g = c # cs" using assms(2) by (cases g) auto
  have c: "is_digit c" using assms(1) g by simp
  have dw: "dropWhile is_space g = g" using c g is_digit_not_space by simp
  have sg: "c \<noteq> CHR ''-''" "c \<noteq> CHR ''+''" using c by (auto simp: is_digit_def)
  have tw: "takeWhile is_digit g = g" using assms(1) by (simp add: list_all_iff)
  show ?thesis
    using sg assms(2) by (simp add: parseInt_def dw Let_def g [symmetric] tw) (simp add: g)
qed


lemma digits_unfold:
  "digits 2 = [Digit, Digit]"
  "digits 3 = [Digit, Digit, Digit]"
  "digits 4 = [Digit, Digit, Digit, Digit]"
  "digits 6 = [Digit, Digit, Digit, Digit, Digit, Digit]"
  by (simp_all add: digits_def numeral_eq_Suc)




lemma not_digit_letters [simp]:
  "\<not> is_digit CHR ''G''" "\<not> is_digit CHR ''K''" "\<not> is_digit CHR ''V''"
  by (simp_all add: is_digit_def)



lemma drop_split: "drop a s = take n (drop a s) @ drop (a + n) s"
proof -
  have "drop (a + n) s = drop n (drop a s)" by (simp add: add.commute)
  then show ?thesis by (simp only: append_take_drop_id)
qed

lemma gust_pattern_sound:
  assumes a: "a \<in> set gust_alternatives" and m: "matches_at (gust_pattern a) s"
    and a3: "a = (p1, n2, n3)"
  shows "\<exists>g1 g2 post. gust_occurrence s [] g1 g2 (take n3 (drop (3 + n2 + 1) s)) post"
proof -
  from a a3 have p1: "p1 = digits 3 \<or> p1 = lit ''VRB''" and n2: "n2 = 3 \<or> n2 = 2"
    and n3: "n3 = 3 \<or> n3 = 2"
    by (auto simp: gust_alternatives_def)
  have l1: "length p1 = 3" using p1 by auto
  from m a3 have m1: "matches_at p1 s"
    and m2: "matches_at (digits n2) (drop 3 s)"
    and m3: "matches_at (lit ''G'') (drop (3 + n2) s)"
    and m4: "matches_at (digits n3) (drop (3 + n2 + 1) s)"
    and m5: "matches_at (lit ''KT'') (drop (3 + n2 + 1 + n3) s)"
    by (simp_all add: gust_pattern_def matches_at_append l1 add.commute add.left_commute)
  define g1 where "g1 = take 3 s"
  define g2 where "g2 = take n2 (drop 3 s)"
  define g3 where "g3 = take n3 (drop (3 + n2 + 1) s)"
  define post where "post = drop (3 + n2 + 1 + n3 + 2) s"
  have len: "3 + n2 + 1 + n3 + 2 \<le> length s"
    using matches_at_length [OF m5] by simp
  have e3: "take 1 (drop (3 + n2) s) = ''G''" using m3 by (simp add: matches_at_lit)
  have e5: "take 2 (drop (3 + n2 + 1 + n3) s) = ''KT''"
    using m5 by (simp add: matches_at_lit numeral_2_eq_2)
  have "s = take 3 s @ drop 3 s" by simp
  also have "drop 3 s = take n2 (drop 3 s) @ drop (3 + n2) s"
    by (rule drop_split)
  also have "drop (3 + n2) s = take 1 (drop (3 + n2) s) @ drop (3 + n2 + 1) s"
    by (rule drop_split)
  also have "drop (3 + n2 + 1) s = take n3 (drop (3 + n2 + 1) s) @ drop (3 + n2 + 1 + n3) s"
    by (rule drop_split)
  also have "drop (3 + n2 + 1 + n3) s =
      take 2 (drop (3 + n2 + 1 + n3) s) @ drop (3 + n2 + 1 + n3 + 2) s"
    by (rule drop_split)
  finally have s: "s = g1 @ g2 @ ''G'' @ g3 @ ''KT'' @ post"
    unfolding e3 e5 g1_def g2_def g3_def post_def by simp
  have "gust_group1 g1"
    using p1 m1 len
    by (auto simp: gust_group1_def g1_def matches_at_digits matches_at_lit numeral_3_eq_3)
  moreover have "gust_digits g2"
    using n2 m2 len by (auto simp: gust_digits_def g2_def matches_at_digits)
  moreover have "gust_digits g3"
    using n3 m4 len by (auto simp: gust_digits_def g3_def matches_at_digits)
  ultimately have "gust_occurrence s [] g1 g2 g3 post"
    using s by (simp add: gust_occurrence_def)
  then show ?thesis unfolding g3_def by blast
qed

lemma gust_match_at_sound:
  assumes "gust_match_at s = Some g"
  shows "\<exists>g1 g2 post. gust_occurrence s [] g1 g2 g post"
proof -
  from assms obtain p1 n2 n3 where
    f: "find (\<lambda>a. matches_at (gust_pattern a) s) gust_alternatives = Some (p1, n2, n3)"
    and g: "g = take n3 (drop (3 + n2 + 1) s)"
    by (auto simp: gust_match_at_def split: option.splits)
  from f have "(p1, n2, n3) \<in> set gust_alternatives" "matches_at (gust_pattern (p1, n2, n3)) s"
    by (auto simp: find_Some_iff in_set_conv_nth)
  from gust_pattern_sound [OF this refl] show ?thesis unfolding g .
qed




lemma gust_search_sound:
  "gust_search s = Some g \<Longrightarrow> \<exists>pre g1 g2 post. gust_occurrence s pre g1 g2 g post"
proof (induction s)
  case Nil
  then have "gust_match_at [] = Some g" by simp
  from gust_match_at_sound [OF this] show ?case by blast
next
  case (Cons c cs)
  show ?case
  proof (cases "gust_match_at (c # cs)")
    case (Some g')
    with Cons.prems have "gust_match_at (c # cs) = Some g" by simp
    from gust_match_at_sound [OF this] show ?thesis by blast
  next
    case None
    with Cons.prems have "gust_search cs = Some g" by simp
    with Cons.IH obtain pre g1 g2 post where "gust_occurrence cs pre g1 g2 g post" by blast
    then have "gust_occurrence (c # cs) (c # pre) g1 g2 g post"
      by (simp add: gust_occurrence_def)
    then show ?thesis by blast
  qed
qed



lemma gust_digits_value:
  assumes "gust_digits g"
  shows "g \<noteq> [] \<and> parseInt g = Num (int (dec_value g))"
proof -
  have ne: "g \<noteq> []" using assms by (auto simp: gust_digits_def)
  moreover have "list_all is_digit g" using assms by (simp add: gust_digits_def)
  ultimately show ?thesis using parseInt_digits [of g] by simp
qed

subsection \<open>The gust extractor\<close>




section \<open>Theorems: the TAF parser\<close>

subsection \<open>Searching\<close>

lemma search_index_None_iff:
  "search_index P s i = None \<longleftrightarrow> (\<forall>k\<le>length s. \<not> P (drop k s))"
proof (induction s arbitrary: i)
  case Nil
  show ?case by simp
next
  case (Cons c cs)
  have "(\<forall>k\<le>length (c # cs). \<not> P (drop k (c # cs))) \<longleftrightarrow>
        \<not> P (c # cs) \<and> (\<forall>k\<le>length cs. \<not> P (drop k cs))"
  proof
    assume a: "\<forall>k\<le>length (c # cs). \<not> P (drop k (c # cs))"
    have "\<not> P (drop 0 (c # cs))" using a by blast
    moreover have "\<forall>k\<le>length cs. \<not> P (drop k cs)"
    proof (intro allI impI)
      fix k assume "k \<le> length cs"
      then have "Suc k \<le> length (c # cs)" by simp
      with a have "\<not> P (drop (Suc k) (c # cs))" by blast
      then show "\<not> P (drop k cs)" by simp
    qed
    ultimately show "\<not> P (c # cs) \<and> (\<forall>k\<le>length cs. \<not> P (drop k cs))" by simp
  next
    assume a: "\<not> P (c # cs) \<and> (\<forall>k\<le>length cs. \<not> P (drop k cs))"
    show "\<forall>k\<le>length (c # cs). \<not> P (drop k (c # cs))"
    proof (intro allI impI)
      fix k assume k: "k \<le> length (c # cs)"
      show "\<not> P (drop k (c # cs))"
        using a k by (cases k) auto
    qed
  qed
  then show ?case by (simp add: Cons.IH)
qed

lemma search_index_Some:
  "search_index P s i = Some j \<Longrightarrow> i \<le> j \<and> j - i \<le> length s \<and> P (drop (j - i) s)"
proof (induction s arbitrary: i)
  case Nil
  then show ?case by (simp split: if_splits)
next
  case (Cons c cs)
  show ?case
  proof (cases "P (c # cs)")
    case True
    with Cons.prems show ?thesis by simp
  next
    case False
    with Cons.prems have "search_index P cs (Suc i) = Some j" by simp
    from Cons.IH [OF this] have "Suc i \<le> j" "j - Suc i \<le> length cs" "P (drop (j - Suc i) cs)"
      by simp_all
    moreover from \<open>Suc i \<le> j\<close> have "j - i = Suc (j - Suc i)" by simp
    ultimately show ?thesis by simp
  qed
qed

lemma contains_iff_startsWith:
  "contains s w \<longleftrightarrow> (\<exists>k\<le>length s. startsWith (drop k s) w)"
proof
  assume "contains s w"
  then obtain pre post where s: "s = pre @ w @ post" by (auto simp: contains_def)
  then have "startsWith (drop (length pre) s) w" "length pre \<le> length s"
    by (simp_all add: startsWith_def)
  then show "\<exists>k\<le>length s. startsWith (drop k s) w" by blast
next
  assume "\<exists>k\<le>length s. startsWith (drop k s) w"
  then obtain k where k: "take (length w) (drop k s) = w" by (auto simp: startsWith_def)
  have "s = take k s @ take (length w) (drop k s) @ drop (length w) (drop k s)"
    by (simp only: append_take_drop_id)
  with k have "s = take k s @ w @ drop (length w) (drop k s)" by simp
  then show "contains s w" unfolding contains_def by blast
qed

lemma indexOf_None_iff: "indexOf s w 0 = None \<longleftrightarrow> \<not> contains s w"
  by (simp add: indexOf_def search_index_None_iff contains_iff_startsWith)

lemma matches_at_take:
  "matches_at p s \<longleftrightarrow> length p \<le> length s \<and> matches_at p (take (length p) s)"
  by (induction p s rule: matches_at.induct) auto

lemma matches_at_lit_append:
  "matches_at (lit w @ q) s \<longleftrightarrow> (\<exists>r. s = w @ r \<and> matches_at q r)"
proof
  assume "matches_at (lit w @ q) s"
  then have "take (length w) s = w" "matches_at q (drop (length w) s)"
    by (simp_all add: matches_at_append matches_at_lit)
  moreover have "s = take (length w) s @ drop (length w) s" by simp
  ultimately have "s = w @ drop (length w) s \<and> matches_at q (drop (length w) s)" by simp
  then show "\<exists>r. s = w @ r \<and> matches_at q r" by blast
next
  assume "\<exists>r. s = w @ r \<and> matches_at q r"
  then show "matches_at (lit w @ q) s"
    by (auto simp: matches_at_append matches_at_lit)
qed

lemma matches_at_digits_append:
  "matches_at (digits n @ q) s \<longleftrightarrow>
   (\<exists>d r. s = d @ r \<and> length d = n \<and> list_all is_digit d \<and> matches_at q r)"
proof
  assume "matches_at (digits n @ q) s"
  then have a: "n \<le> length s" "list_all is_digit (take n s)" "matches_at q (drop n s)"
    by (simp_all add: matches_at_append matches_at_digits)
  have "s = take n s @ drop n s" by simp
  moreover have "length (take n s) = n" using a(1) by simp
  ultimately show "\<exists>d r. s = d @ r \<and> length d = n \<and> list_all is_digit d \<and> matches_at q r"
    using a by blast
next
  assume "\<exists>d r. s = d @ r \<and> length d = n \<and> list_all is_digit d \<and> matches_at q r"
  then show "matches_at (digits n @ q) s"
    by (auto simp: matches_at_append matches_at_digits)
qed

lemma matches_at_pat_FM:
  "matches_at pat_FM t \<longleftrightarrow> (\<exists>m r. t = m @ r \<and> is_FM_marker m)"
proof -
  have "matches_at pat_FM t \<longleftrightarrow> matches_at (lit ''FM'' @ digits 6 @ []) t"
    by (simp add: pat_FM_def)
  also have "\<dots> \<longleftrightarrow> (\<exists>d r. t = (''FM'' @ d) @ r \<and> length d = 6 \<and> list_all is_digit d)"
    unfolding matches_at_lit_append matches_at_digits_append matches_at.simps(1) append_assoc
    by blast
  also have "\<dots> \<longleftrightarrow> (\<exists>m r. t = m @ r \<and> is_FM_marker m)"
    unfolding is_FM_marker_def by blast
  finally show ?thesis .
qed

lemma matches_at_pat_BECMG:
  "matches_at pat_BECMG t \<longleftrightarrow> (\<exists>m r. t = m @ r \<and> is_BECMG_marker m)"
proof -
  have "matches_at pat_BECMG t \<longleftrightarrow>
        matches_at (lit ''BECMG '' @ digits 4 @ lit ''/'' @ digits 4 @ []) t"
    by (simp add: pat_BECMG_def)
  also have "\<dots> \<longleftrightarrow> (\<exists>a b r. t = ''BECMG '' @ a @ ''/'' @ b @ r \<and> length a = 4 \<and>
        length b = 4 \<and> list_all is_digit a \<and> list_all is_digit b)"
    unfolding matches_at_lit_append matches_at_digits_append matches_at.simps(1)
    by blast
  also have "\<dots> \<longleftrightarrow> (\<exists>a b r. t = (''BECMG '' @ a @ ''/'' @ b) @ r \<and> length a = 4 \<and>
        length b = 4 \<and> list_all is_digit a \<and> list_all is_digit b)"
    by (simp only: append_assoc)
  also have "\<dots> \<longleftrightarrow> (\<exists>m r. t = m @ r \<and> is_BECMG_marker m)"
    unfolding is_BECMG_marker_def by blast
  finally show ?thesis .
qed

lemma search_marker_None_iff:
  "search_index (\<lambda>t. matches_at pat_FM t \<or> matches_at pat_BECMG t) s 0 = None \<longleftrightarrow>
   \<not> (\<exists>m. (is_FM_marker m \<or> is_BECMG_marker m) \<and> contains s m)"
proof -
  have "(\<exists>k\<le>length s. matches_at pat_FM (drop k s) \<or> matches_at pat_BECMG (drop k s)) \<longleftrightarrow>
        (\<exists>m. (is_FM_marker m \<or> is_BECMG_marker m) \<and> contains s m)"
  proof
    assume "\<exists>k\<le>length s. matches_at pat_FM (drop k s) \<or> matches_at pat_BECMG (drop k s)"
    then obtain k m r where "drop k s = m @ r" "is_FM_marker m \<or> is_BECMG_marker m"
      unfolding matches_at_pat_FM matches_at_pat_BECMG by blast
    moreover have "s = take k s @ drop k s" by simp
    ultimately have "s = take k s @ m @ r" by simp
    then have "contains s m" unfolding contains_def by blast
    with \<open>is_FM_marker m \<or> is_BECMG_marker m\<close>
    show "\<exists>m. (is_FM_marker m \<or> is_BECMG_marker m) \<and> contains s m" by blast
  next
    assume "\<exists>m. (is_FM_marker m \<or> is_BECMG_marker m) \<and> contains s m"
    then obtain m pre post where m: "is_FM_marker m \<or> is_BECMG_marker m" "s = pre @ m @ post"
      unfolding contains_def by blast
    then have "drop (length pre) s = m @ post" "length pre \<le> length s" by simp_all
    with m(1) show "\<exists>k\<le>length s. matches_at pat_FM (drop k s) \<or> matches_at pat_BECMG (drop k s)"
      unfolding matches_at_pat_FM matches_at_pat_BECMG by blast
  qed
  then show ?thesis unfolding search_index_None_iff by blast
qed

lemma tafStart_None_iff:
  "tafStart clean code = None \<longleftrightarrow>
   \<not> contains clean (''TAF: '' @ code) \<and> \<not> contains clean (''TAF '' @ code) \<and>
   \<not> (\<exists>m. (is_FM_marker m \<or> is_BECMG_marker m) \<and> contains clean m)"
  unfolding tafStart_def
  by (simp only: indexOf_None_iff [symmetric] search_marker_None_iff [symmetric]
      split: option.split) auto

subsection \<open>The worked example\<close>

text \<open>
  Claim C5. On the HTML of the specification and the station code \<^verbatim>\<open>KMIE\<close>, \<open>parseTaf\<close>
  produces exactly three entries, in this order: a HEADER entry with the initial group,
  an FM entry with day 12, hour 18 and gust 22, and a BECMG entry with day 13, hour 0 and
  no gust. The text behind the stop marker \<^verbatim>\<open>METAR\<close> is in none of them.
\<close>

theorem parseTaf_example:
  "parseTaf ''<b>TAF: KMIE</b> 121130Z 1212/1312 18012KT FM121800 20015G22KT BECMG 1300/1302 22010KT METAR ...'' ''KMIE'' =
     [\<lparr>raw = ''TAF: KMIE 121130Z 1212/1312 18012KT'', gust = None, type = HEADER,
       day = None, hour = None\<rparr>,
      \<lparr>raw = ''FM121800 20015G22KT'', gust = Some (Num 22), type = FM,
       day = Some (Num 12), hour = Some (Num 18)\<rparr>,
      \<lparr>raw = ''BECMG 1300/1302 22010KT'', gust = None, type = BECMG,
       day = Some (Num 13), hour = Some (Num 0)\<rparr>] \<and>
   list_all (\<lambda>e. \<not> str_includes (raw e) ''METAR'' \<and> \<not> str_includes (raw e) ''...'')
     (parseTaf ''<b>TAF: KMIE</b> 121130Z 1212/1312 18012KT FM121800 20015G22KT BECMG 1300/1302 22010KT METAR ...'' ''KMIE'')"
  by code_simp

subsection \<open>No start marker\<close>

text \<open>
  With the tags stripped, but the white space not yet collapsed, the text of
  \<open>broken_prefix_html\<close> contains none of the start markers: a space and a line feed stand
  between \<^verbatim>\<open>TAF:\<close> and the station code. \<open>parseTaf\<close> searches the text after the collapse
  of the white space, finds \<^verbatim>\<open>TAF: KMIE\<close> there and returns an entry.
\<close>

theorem parseTaf_no_marker_counterexample:
  "strip_tags broken_prefix_html = '' TAF: '' @ [CHR 0x0A] @ ''KMIE 1212/1312 18012KT'' \<and>
   \<not> contains (strip_tags broken_prefix_html) (''TAF: '' @ ''KMIE'') \<and>
   \<not> contains (strip_tags broken_prefix_html) (''TAF '' @ ''KMIE'') \<and>
   \<not> (\<exists>m. (is_FM_marker m \<or> is_BECMG_marker m) \<and> contains (strip_tags broken_prefix_html) m) \<and>
   parseTaf broken_prefix_html ''KMIE'' =
     [\<lparr>raw = ''TAF: KMIE 1212/1312 18012KT'', gust = None, type = HEADER,
       day = None, hour = None\<rparr>]"
proof (intro conjI)
  show "strip_tags broken_prefix_html = '' TAF: '' @ [CHR 0x0A] @ ''KMIE 1212/1312 18012KT''"
    by code_simp
  show "\<not> contains (strip_tags broken_prefix_html) (''TAF: '' @ ''KMIE'')"
    unfolding indexOf_None_iff [symmetric] by code_simp
  show "\<not> contains (strip_tags broken_prefix_html) (''TAF '' @ ''KMIE'')"
    unfolding indexOf_None_iff [symmetric] by code_simp
  show "\<not> (\<exists>m. (is_FM_marker m \<or> is_BECMG_marker m) \<and> contains (strip_tags broken_prefix_html) m)"
    unfolding search_marker_None_iff [symmetric] by code_simp
  show "parseTaf broken_prefix_html ''KMIE'' =
     [\<lparr>raw = ''TAF: KMIE 1212/1312 18012KT'', gust = None, type = HEADER,
       day = None, hour = None\<rparr>]"
    by code_simp
qed

text \<open>
  Claim C6, as the code has it. If the text that remains after the tags are stripped and
  the runs of white space are collapsed to single spaces (\<open>cleanText\<close>) contains neither
  \<^verbatim>\<open>TAF: \<close> followed by the station code, nor \<^verbatim>\<open>TAF \<close> followed by the station code, nor
  \<^verbatim>\<open>FM\<close> with six digits, nor \<^verbatim>\<open>BECMG\<close> with a time range \<^verbatim>\<open>####/####\<close>, then \<open>parseTaf\<close>
  returns the empty list.
\<close>

theorem parseTaf_no_marker:
  assumes "\<not> contains (cleanText rawHtml) (''TAF: '' @ code)"
    and "\<not> contains (cleanText rawHtml) (''TAF '' @ code)"
    and "\<not> (\<exists>m. (is_FM_marker m \<or> is_BECMG_marker m) \<and> contains (cleanText rawHtml) m)"
  shows "parseTaf rawHtml code = []"
proof -
  have "tafStart (cleanText rawHtml) code = None"
    unfolding tafStart_None_iff using assms by blast
  then show ?thesis by (simp add: parseTaf_def)
qed

theorem parseTaf_no_marker_witness:
  "cleanText ''<p>No  forecast, TAF pending</p>'' = '' No forecast, TAF pending '' \<and>
   parseTaf ''<p>No  forecast, TAF pending</p>'' ''KMIE'' = []"
proof -
  let ?h = "''<p>No  forecast, TAF pending</p>''"
  have c: "cleanText ?h = '' No forecast, TAF pending ''" by code_simp
  have h1: "\<not> contains (cleanText ?h) (''TAF: '' @ ''KMIE'')"
    unfolding indexOf_None_iff [symmetric] by code_simp
  have h2: "\<not> contains (cleanText ?h) (''TAF '' @ ''KMIE'')"
    unfolding indexOf_None_iff [symmetric] by code_simp
  have h3: "\<not> (\<exists>m. (is_FM_marker m \<or> is_BECMG_marker m) \<and> contains (cleanText ?h) m)"
    unfolding search_marker_None_iff [symmetric] by code_simp
  from parseTaf_no_marker [OF h1 h2 h3] c show ?thesis by simp
qed

subsection \<open>Patterns written out\<close>

lemma matches_at_Cons_case:
  "matches_at (p # ps) s = (case s of [] \<Rightarrow> False | c # cs \<Rightarrow> cls_ok p c \<and> matches_at ps cs)"
  by (cases s) auto

lemma pats_unfold:
  "pat_FM = [Lit CHR ''F'', Lit CHR ''M'', Digit, Digit, Digit, Digit, Digit, Digit]"
  "pat_BECMG = [Lit CHR ''B'', Lit CHR ''E'', Lit CHR ''C'', Lit CHR ''M'', Lit CHR ''G'', Lit CHR '' '',
     Digit, Digit, Digit, Digit, Lit CHR ''/'', Digit, Digit, Digit, Digit]"
  "pat_TEMPO = [Lit CHR ''T'', Lit CHR ''E'', Lit CHR ''M'', Lit CHR ''P'', Lit CHR ''O'', Lit CHR '' '',
     Digit, Digit, Digit, Digit, Lit CHR ''/'', Digit, Digit, Digit, Digit]"
  "pat_PROB = [Lit CHR ''P'', Lit CHR ''R'', Lit CHR ''O'', Lit CHR ''B'', Digit, Digit, Lit CHR '' '',
     Digit, Digit, Digit, Digit, Lit CHR ''/'', Digit, Digit, Digit, Digit]"
  by (simp_all add: pat_FM_def pat_BECMG_def pat_TEMPO_def pat_PROB_def lit_def digits_unfold)

lemma heads_unfold:
  "head_FM = [Lit CHR ''F'', Lit CHR ''M'', Digit, Digit, Digit, Digit]"
  "head_BECMG = [Lit CHR ''B'', Lit CHR ''E'', Lit CHR ''C'', Lit CHR ''M'', Lit CHR ''G'', Lit CHR '' '',
     Digit, Digit, Digit, Digit]"
  "head_TEMPO = [Lit CHR ''T'', Lit CHR ''E'', Lit CHR ''M'', Lit CHR ''P'', Lit CHR ''O'', Lit CHR '' '',
     Digit, Digit, Digit, Digit]"
  "head_PROB = [Lit CHR ''P'', Lit CHR ''R'']"
  "head_TAF = [Lit CHR ''T'', Lit CHR ''A'']"
  by (simp_all add: head_FM_def head_BECMG_def head_TEMPO_def head_PROB_def head_TAF_def
      lit_def digits_unfold)

lemma digit_not_letter:
  "is_digit c \<Longrightarrow> (c = CHR ''F'') = False"
  "is_digit c \<Longrightarrow> (c = CHR ''B'') = False"
  "is_digit c \<Longrightarrow> (c = CHR ''T'') = False"
  "is_digit c \<Longrightarrow> (c = CHR ''P'') = False"
  "is_digit c \<Longrightarrow> (c = CHR 0x0A) = False"
  by (auto simp: is_digit_def)

lemma no_match_first:
  "c \<noteq> CHR ''F'' \<Longrightarrow> matches_at pat_FM (c # cs) = False"
  "c \<noteq> CHR ''B'' \<Longrightarrow> matches_at pat_BECMG (c # cs) = False"
  "c \<noteq> CHR ''T'' \<Longrightarrow> matches_at pat_TEMPO (c # cs) = False"
  "c \<noteq> CHR ''P'' \<Longrightarrow> matches_at pat_PROB (c # cs) = False"
  by (simp_all add: pats_unfold)

lemma no_match_second:
  "d \<noteq> CHR ''E'' \<Longrightarrow> matches_at pat_TEMPO (c # d # cs) = False"
  "d \<noteq> CHR ''R'' \<Longrightarrow> matches_at pat_PROB (c # d # cs) = False"
  by (simp_all add: pats_unfold)

lemma head_FM_iff:
  "matches_at head_FM u \<longleftrightarrow>
   (\<exists>d1 d2 d3 d4 r. u = CHR ''F'' # CHR ''M'' # d1 # d2 # d3 # d4 # r \<and>
      is_digit d1 \<and> is_digit d2 \<and> is_digit d3 \<and> is_digit d4)"
  unfolding heads_unfold by (auto simp: matches_at_Cons_case split: list.splits)

lemma head_BECMG_iff:
  "matches_at head_BECMG u \<longleftrightarrow>
   (\<exists>d1 d2 d3 d4 r. u = CHR ''B'' # CHR ''E'' # CHR ''C'' # CHR ''M'' # CHR ''G'' # CHR '' '' #
        d1 # d2 # d3 # d4 # r \<and>
      is_digit d1 \<and> is_digit d2 \<and> is_digit d3 \<and> is_digit d4)"
  unfolding heads_unfold by (auto simp: matches_at_Cons_case split: list.splits)

lemma head_TEMPO_iff:
  "matches_at head_TEMPO u \<longleftrightarrow>
   (\<exists>d1 d2 d3 d4 r. u = CHR ''T'' # CHR ''E'' # CHR ''M'' # CHR ''P'' # CHR ''O'' # CHR '' '' #
        d1 # d2 # d3 # d4 # r \<and>
      is_digit d1 \<and> is_digit d2 \<and> is_digit d3 \<and> is_digit d4)"
  unfolding heads_unfold by (auto simp: matches_at_Cons_case split: list.splits)

lemma head_PROB_iff: "matches_at head_PROB u \<longleftrightarrow> (\<exists>r. u = CHR ''P'' # CHR ''R'' # r)"
  unfolding heads_unfold by (auto simp: matches_at_Cons_case split: list.splits)

lemma head_TAF_iff: "matches_at head_TAF u \<longleftrightarrow> (\<exists>r. u = CHR ''T'' # CHR ''A'' # r)"
  unfolding heads_unfold by (auto simp: matches_at_Cons_case split: list.splits)

text \<open>A stage is one of the four replacements.\<close>

lemma stable_FM:
  assumes "p = pat_BECMG \<or> p = pat_TEMPO \<or> p = pat_PROB" and "matches_at head_FM u"
  shows "matches_at head_FM (insert_nl p j u)"
proof -
  from assms(2) obtain d1 d2 d3 d4 r where
    u: "u = CHR ''F'' # CHR ''M'' # d1 # d2 # d3 # d4 # r"
    and d: "is_digit d1" "is_digit d2" "is_digit d3" "is_digit d4"
    unfolding head_FM_iff by blast
  have "\<exists>r'. insert_nl p j u = CHR ''F'' # CHR ''M'' # d1 # d2 # d3 # d4 # r'"
    using assms(1) d unfolding u
    by (elim disjE) (simp_all add: no_match_first digit_not_letter)
  with d show ?thesis unfolding head_FM_iff by blast
qed

lemma tail_stable_FM:
  assumes "p = pat_FM \<or> p = pat_BECMG \<or> p = pat_TEMPO \<or> p = pat_PROB"
    and "matches_at head_FM (c # cs)"
  shows "matches_at head_FM (c # insert_nl p j cs)"
proof -
  from assms(2) obtain d1 d2 d3 d4 r where
    u: "c = CHR ''F''" "cs = CHR ''M'' # d1 # d2 # d3 # d4 # r"
    and d: "is_digit d1" "is_digit d2" "is_digit d3" "is_digit d4"
    unfolding head_FM_iff by blast
  have "\<exists>r'. insert_nl p j cs = CHR ''M'' # d1 # d2 # d3 # d4 # r'"
    using assms(1) d unfolding u
    by (elim disjE) (simp_all add: no_match_first digit_not_letter)
  with d u show ?thesis unfolding head_FM_iff by blast
qed

lemma stable_BECMG:
  assumes "p = pat_TEMPO \<or> p = pat_PROB" and "matches_at head_BECMG u"
  shows "matches_at head_BECMG (insert_nl p j u)"
proof -
  from assms(2) obtain d1 d2 d3 d4 r where
    u: "u = CHR ''B'' # CHR ''E'' # CHR ''C'' # CHR ''M'' # CHR ''G'' # CHR '' '' #
        d1 # d2 # d3 # d4 # r"
    and d: "is_digit d1" "is_digit d2" "is_digit d3" "is_digit d4"
    unfolding head_BECMG_iff by blast
  have "\<exists>r'. insert_nl p j u = CHR ''B'' # CHR ''E'' # CHR ''C'' # CHR ''M'' # CHR ''G'' # CHR '' '' #
        d1 # d2 # d3 # d4 # r'"
    using assms(1) d unfolding u
    by (elim disjE) (simp_all add: no_match_first digit_not_letter)
  with d show ?thesis unfolding head_BECMG_iff by blast
qed

lemma tail_stable_BECMG:
  assumes "p = pat_FM \<or> p = pat_BECMG \<or> p = pat_TEMPO \<or> p = pat_PROB"
    and "matches_at head_BECMG (c # cs)"
  shows "matches_at head_BECMG (c # insert_nl p j cs)"
proof -
  from assms(2) obtain d1 d2 d3 d4 r where
    u: "c = CHR ''B''" "cs = CHR ''E'' # CHR ''C'' # CHR ''M'' # CHR ''G'' # CHR '' '' #
        d1 # d2 # d3 # d4 # r"
    and d: "is_digit d1" "is_digit d2" "is_digit d3" "is_digit d4"
    unfolding head_BECMG_iff by blast
  have "\<exists>r'. insert_nl p j cs = CHR ''E'' # CHR ''C'' # CHR ''M'' # CHR ''G'' # CHR '' '' #
        d1 # d2 # d3 # d4 # r'"
    using assms(1) d unfolding u
    by (elim disjE) (simp_all add: no_match_first digit_not_letter)
  with d u show ?thesis unfolding head_BECMG_iff by blast
qed

lemma stable_TEMPO:
  assumes "matches_at head_TEMPO u"
  shows "matches_at head_TEMPO (insert_nl pat_PROB j u)"
proof -
  from assms obtain d1 d2 d3 d4 r where
    u: "u = CHR ''T'' # CHR ''E'' # CHR ''M'' # CHR ''P'' # CHR ''O'' # CHR '' '' #
        d1 # d2 # d3 # d4 # r"
    and d: "is_digit d1" "is_digit d2" "is_digit d3" "is_digit d4"
    unfolding head_TEMPO_iff by blast
  have "\<exists>r'. insert_nl pat_PROB j u = CHR ''T'' # CHR ''E'' # CHR ''M'' # CHR ''P'' # CHR ''O'' # CHR '' '' #
        d1 # d2 # d3 # d4 # r'"
    using d unfolding u
    by (simp add: no_match_first no_match_second digit_not_letter)
  with d show ?thesis unfolding head_TEMPO_iff by blast
qed

lemma tail_stable_TEMPO:
  assumes "matches_at head_TEMPO (c # cs)"
  shows "matches_at head_TEMPO (c # insert_nl pat_TEMPO j cs)"
proof -
  from assms obtain d1 d2 d3 d4 r where
    u: "c = CHR ''T''" "cs = CHR ''E'' # CHR ''M'' # CHR ''P'' # CHR ''O'' # CHR '' '' #
        d1 # d2 # d3 # d4 # r"
    and d: "is_digit d1" "is_digit d2" "is_digit d3" "is_digit d4"
    unfolding head_TEMPO_iff by blast
  have "\<exists>r'. insert_nl pat_TEMPO j cs = CHR ''E'' # CHR ''M'' # CHR ''P'' # CHR ''O'' # CHR '' '' #
        d1 # d2 # d3 # d4 # r'"
    using d unfolding u
    by (simp add: no_match_first digit_not_letter)
  with d u show ?thesis unfolding head_TEMPO_iff by blast
qed

lemma tail_stable_PROB:
  assumes "matches_at head_PROB (c # cs)"
  shows "matches_at head_PROB (c # insert_nl pat_PROB j cs)"
proof -
  from assms obtain r where u: "c = CHR ''P''" "cs = CHR ''R'' # r"
    unfolding head_PROB_iff by blast
  have "\<exists>r'. insert_nl pat_PROB j cs = CHR ''R'' # r'"
    unfolding u by (simp add: no_match_first)
  with u show ?thesis unfolding head_PROB_iff by blast
qed

lemma stable_TAF:
  assumes "p = pat_FM \<or> p = pat_BECMG \<or> p = pat_TEMPO \<or> p = pat_PROB"
    and "matches_at head_TAF u"
  shows "matches_at head_TAF (insert_nl p j u)"
proof -
  from assms(2) obtain r where u: "u = CHR ''T'' # CHR ''A'' # r"
    unfolding head_TAF_iff by blast
  have "\<exists>r'. insert_nl p j u = CHR ''T'' # CHR ''A'' # r'"
    using assms(1) unfolding u
    by (elim disjE) (simp_all add: no_match_first no_match_second)
  then show ?thesis unfolding head_TAF_iff by blast
qed

lemma pat_split:
  "pat_FM = head_FM @ digits 2"
  "pat_BECMG = head_BECMG @ lit ''/'' @ digits 4"
  "pat_TEMPO = head_TEMPO @ lit ''/'' @ digits 4"
  "pat_PROB = head_PROB @ lit ''OB'' @ digits 2 @ lit '' '' @ digits 4 @ lit ''/'' @ digits 4"
  by (simp_all add: pats_unfold heads_unfold lit_def digits_unfold)

lemma pat_imp_head:
  "matches_at pat_FM u \<Longrightarrow> matches_at head_FM u"
  "matches_at pat_BECMG u \<Longrightarrow> matches_at head_BECMG u"
  "matches_at pat_TEMPO u \<Longrightarrow> matches_at head_TEMPO u"
  "matches_at pat_PROB u \<Longrightarrow> matches_at head_PROB u"
  unfolding pat_split matches_at_append by simp_all

subsection \<open>The invariant of the splitting step\<close>

lemma after_nl_insert:
  assumes H: "\<And>u j. G u \<Longrightarrow> G' (insert_nl p j u)"
    and N: "\<And>c cs j. matches_at p (c # cs) \<Longrightarrow> G' (c # insert_nl p j cs)"
  shows "after_nl G s \<Longrightarrow> after_nl G' (insert_nl p k s)"
proof (induction s arbitrary: k)
  case Nil
  show ?case by simp
next
  case (Cons c cs)
  from Cons.prems have g: "c = CHR 0x0A \<longrightarrow> G cs" and a: "after_nl G cs" by simp_all
  have tail: "after_nl G' (c # insert_nl p j cs)" for j
    using g H [of cs j] Cons.IH [OF a, of j] by simp
  show ?case
  proof (cases "k = 0 \<and> matches_at p (c # cs)")
    case True
    then have "insert_nl p k (c # cs) = CHR 0x0A # c # insert_nl p (length p - 1) cs" by simp
    moreover have "G' (c # insert_nl p (length p - 1) cs)" using True N by blast
    ultimately show ?thesis using tail [of "length p - 1"] by simp
  next
    case False
    then have "insert_nl p k (c # cs) = c # insert_nl p (k - 1) cs" by auto
    then show ?thesis using tail [of "k - 1"] by simp
  qed
qed

lemma after_nl_no_nl: "CHR 0x0A \<notin> set s \<Longrightarrow> after_nl G s"
  by (induction s) auto

lemma formattedTaf_after_nl:
  assumes "CHR 0x0A \<notin> set b"
  shows "after_nl stage4 (formattedTaf b)"
proof -
  have s0: "after_nl (\<lambda>u. False) b" using assms by (rule after_nl_no_nl)
  have s1: "after_nl stage1 (insert_nl pat_FM 0 b)"
    using s0
  proof (rule after_nl_insert [rotated 2])
    fix c cs j assume "matches_at pat_FM (c # cs)"
    then show "stage1 (c # insert_nl pat_FM j cs)"
      unfolding stage1_def by (intro tail_stable_FM pat_imp_head) auto
  qed simp
  have s2: "after_nl stage2 (insert_nl pat_BECMG 0 (insert_nl pat_FM 0 b))"
    using s1
  proof (rule after_nl_insert [rotated 2])
    fix u j assume "stage1 u"
    then show "stage2 (insert_nl pat_BECMG j u)"
      unfolding stage1_def stage2_def by (auto intro: stable_FM)
  next
    fix c cs j assume "matches_at pat_BECMG (c # cs)"
    then show "stage2 (c # insert_nl pat_BECMG j cs)"
      unfolding stage2_def by (auto intro: tail_stable_BECMG pat_imp_head)
  qed
  have s3: "after_nl stage3 (insert_nl pat_TEMPO 0 (insert_nl pat_BECMG 0 (insert_nl pat_FM 0 b)))"
    using s2
  proof (rule after_nl_insert [rotated 2])
    fix u j assume "stage2 u"
    then show "stage3 (insert_nl pat_TEMPO j u)"
      unfolding stage2_def stage3_def by (auto intro: stable_FM stable_BECMG)
  next
    fix c cs j assume "matches_at pat_TEMPO (c # cs)"
    then show "stage3 (c # insert_nl pat_TEMPO j cs)"
      unfolding stage3_def by (auto intro: tail_stable_TEMPO pat_imp_head)
  qed
  have s4: "after_nl stage4
      (insert_nl pat_PROB 0 (insert_nl pat_TEMPO 0 (insert_nl pat_BECMG 0 (insert_nl pat_FM 0 b))))"
    using s3
  proof (rule after_nl_insert [rotated 2])
    fix u j assume "stage3 u"
    then show "stage4 (insert_nl pat_PROB j u)"
      unfolding stage3_def stage4_def by (auto intro: stable_FM stable_BECMG stable_TEMPO)
  next
    fix c cs j assume "matches_at pat_PROB (c # cs)"
    then show "stage4 (c # insert_nl pat_PROB j cs)"
      unfolding stage4_def by (auto intro: tail_stable_PROB pat_imp_head)
  qed
  then show ?thesis by (simp add: formattedTaf_def replace_nl_def)
qed

lemma line_start_insert:
  assumes p: "p = pat_FM \<or> p = pat_BECMG \<or> p = pat_TEMPO \<or> p = pat_PROB"
    and s: "line_start s"
  shows "line_start (insert_nl p 0 s)"
proof -
  from s consider (nl) r where "s = CHR 0x0A # r"
    | (taf) "matches_at head_TAF s"
    | (fm) "matches_at head_FM s"
    | (becmg) "matches_at head_BECMG s"
    unfolding line_start_def by (cases s) auto
  then show ?thesis
  proof cases
    case nl
    have "insert_nl p 0 (CHR 0x0A # r) = CHR 0x0A # insert_nl p 0 r"
      using p by (elim disjE) (simp_all add: no_match_first)
    then show ?thesis by (simp add: nl line_start_def)
  next
    case taf
    from stable_TAF [OF p taf] show ?thesis by (simp add: line_start_def)
  next
    case fm
    then obtain c cs where cs: "s = c # cs" unfolding head_FM_iff by blast
    show ?thesis
    proof (cases "matches_at p s")
      case True
      then show ?thesis by (simp add: cs line_start_def)
    next
      case False
      then have "insert_nl p 0 s = c # insert_nl p 0 cs" by (simp add: cs)
      moreover have "matches_at head_FM (c # insert_nl p 0 cs)"
        using p fm unfolding cs by (rule tail_stable_FM)
      ultimately show ?thesis by (simp add: line_start_def)
    qed
  next
    case becmg
    then obtain c cs where cs: "s = c # cs" unfolding head_BECMG_iff by blast
    show ?thesis
    proof (cases "matches_at p s")
      case True
      then show ?thesis by (simp add: cs line_start_def)
    next
      case False
      then have "insert_nl p 0 s = c # insert_nl p 0 cs" by (simp add: cs)
      moreover have "matches_at head_BECMG (c # insert_nl p 0 cs)"
        using p becmg unfolding cs by (rule tail_stable_BECMG)
      ultimately show ?thesis by (simp add: line_start_def)
    qed
  qed
qed

lemma formattedTaf_start: "line_start b \<Longrightarrow> line_start (formattedTaf b)"
  unfolding formattedTaf_def replace_nl_def
  by (intro line_start_insert) auto

lemma split_nl_shape:
  "after_nl G s \<Longrightarrow>
   \<exists>rest. split_nl s = takeWhile (\<lambda>c. c \<noteq> CHR 0x0A) s # rest \<and>
          (\<forall>x\<in>set rest. \<exists>u. G u \<and> x = takeWhile (\<lambda>c. c \<noteq> CHR 0x0A) u)"
proof (induction s)
  case Nil
  show ?case by simp
next
  case (Cons c cs)
  from Cons.prems have g: "c = CHR 0x0A \<longrightarrow> G cs" and a: "after_nl G cs" by simp_all
  from Cons.IH [OF a] obtain rest where
    r: "split_nl cs = takeWhile (\<lambda>c. c \<noteq> CHR 0x0A) cs # rest"
    "\<forall>x\<in>set rest. \<exists>u. G u \<and> x = takeWhile (\<lambda>c. c \<noteq> CHR 0x0A) u"
    by blast
  show ?case
  proof (cases "c = CHR 0x0A")
    case True
    with g have "G cs" by simp
    with r True show ?thesis by auto
  next
    case False
    with r show ?thesis by simp
  qed
qed

lemma head_takeWhile:
  "matches_at head_TAF u \<Longrightarrow> matches_at head_TAF (takeWhile (\<lambda>c. c \<noteq> CHR 0x0A) u)"
  "matches_at head_FM u \<Longrightarrow> matches_at head_FM (takeWhile (\<lambda>c. c \<noteq> CHR 0x0A) u)"
  "matches_at head_BECMG u \<Longrightarrow> matches_at head_BECMG (takeWhile (\<lambda>c. c \<noteq> CHR 0x0A) u)"
  "matches_at head_TEMPO u \<Longrightarrow> matches_at head_TEMPO (takeWhile (\<lambda>c. c \<noteq> CHR 0x0A) u)"
  "matches_at head_PROB u \<Longrightarrow> matches_at head_PROB (takeWhile (\<lambda>c. c \<noteq> CHR 0x0A) u)"
  unfolding head_TAF_iff head_FM_iff head_BECMG_iff head_TEMPO_iff head_PROB_iff
  by (auto simp: digit_not_letter)

lemma pieces_ok:
  assumes "CHR 0x0A \<notin> set b" and "line_start b" and "x \<in> set (split_nl (formattedTaf b))"
  shows "piece_ok x"
proof -
  let ?f = "formattedTaf b"
  from split_nl_shape [OF formattedTaf_after_nl [OF assms(1)]] obtain rest where
    r: "split_nl ?f = takeWhile (\<lambda>c. c \<noteq> CHR 0x0A) ?f # rest"
    "\<forall>x\<in>set rest. \<exists>u. stage4 u \<and> x = takeWhile (\<lambda>c. c \<noteq> CHR 0x0A) u"
    by blast
  from assms(3) r(1) have "x = takeWhile (\<lambda>c. c \<noteq> CHR 0x0A) ?f \<or> x \<in> set rest" by auto
  then show ?thesis
  proof
    assume x: "x = takeWhile (\<lambda>c. c \<noteq> CHR 0x0A) ?f"
    from formattedTaf_start [OF assms(2)] have "line_start ?f" .
    then consider "?f \<noteq> [] \<and> hd ?f = CHR 0x0A" | "matches_at head_TAF ?f"
      | "matches_at head_FM ?f" | "matches_at head_BECMG ?f"
      unfolding line_start_def by blast
    then show ?thesis
    proof cases
      case 1
      then have "x = []" unfolding x by (cases ?f) auto
      then show ?thesis by (simp add: piece_ok_def)
    next
      case 2
      then show ?thesis unfolding x piece_ok_def by (auto intro: head_takeWhile)
    next
      case 3
      then show ?thesis unfolding x piece_ok_def stage4_def by (auto intro: head_takeWhile)
    next
      case 4
      then show ?thesis unfolding x piece_ok_def stage4_def by (auto intro: head_takeWhile)
    qed
  next
    assume "x \<in> set rest"
    with r(2) obtain u where "stage4 u" "x = takeWhile (\<lambda>c. c \<noteq> CHR 0x0A) u" by blast
    then show ?thesis unfolding piece_ok_def stage4_def by (auto intro: head_takeWhile)
  qed
qed

subsection \<open>Trimming\<close>

lemma trim_keeps_prefix:
  assumes "hs \<noteq> []" "\<not> is_space (hd hs)" "\<not> is_space (last hs)"
  shows "trim (hs @ r) = hs @ rev (dropWhile is_space (rev r))"
proof -
  obtain h t where ht: "hs = h # t" using assms(1) by (cases hs) auto
  have front: "dropWhile is_space (hs @ r) = hs @ r" using assms(2) ht by simp
  have bk: "dropWhile is_space (rev hs) = rev hs"
    using assms(1,3) by (simp add: dropWhile_eq_self_iff hd_rev)
  have "dropWhile is_space (rev r @ rev hs) = dropWhile is_space (rev r) @ rev hs"
  proof (cases "\<forall>x\<in>set (rev r). is_space x")
    case True
    then have "dropWhile is_space (rev r) = []" by simp
    with True bk show ?thesis by (simp add: dropWhile_append)
  next
    case False
    then obtain x where "x \<in> set (rev r)" "\<not> is_space x" by blast
    then show ?thesis by (rule dropWhile_append1)
  qed
  then show ?thesis by (simp add: trim_def front)
qed

lemma trim_prefix:
  "dropWhile is_space s = trim s @ rev (takeWhile is_space (rev (dropWhile is_space s)))"
proof -
  let ?t = "dropWhile is_space s"
  have "?t = rev (rev ?t)" by simp
  also have "\<dots> = rev (takeWhile is_space (rev ?t) @ dropWhile is_space (rev ?t))"
    by (simp only: takeWhile_dropWhile_id)
  also have "\<dots> = rev (dropWhile is_space (rev ?t)) @ rev (takeWhile is_space (rev ?t))"
    by (simp only: rev_append)
  finally show ?thesis by (simp only: trim_def)
qed

text \<open>A trimmed text that is not empty neither begins nor ends with white space.\<close>

lemma trim_ends:
  assumes "trim s \<noteq> []"
  shows "\<not> is_space (hd (trim s))" "\<not> is_space (last (trim s))"
proof -
  let ?t = "dropWhile is_space s"
  have l: "last (trim s) = hd (dropWhile is_space (rev ?t))"
    by (simp add: trim_def last_rev)
  have "dropWhile is_space (rev ?t) \<noteq> []" using assms by (simp add: trim_def)
  then have "\<not> is_space (hd (dropWhile is_space (rev ?t)))" by (rule hd_dropWhile)
  then show "\<not> is_space (last (trim s))" unfolding l .
  from trim_prefix [of s] assms have "hd ?t = hd (trim s)" "?t \<noteq> []"
    by (metis hd_append2, metis append_is_Nil_conv)
  moreover from \<open>?t \<noteq> []\<close> have "\<not> is_space (hd ?t)" by (rule hd_dropWhile)
  ultimately show "\<not> is_space (hd (trim s))" by simp
qed

lemma not_space_letters [simp]:
  "\<not> is_space CHR ''T''" "\<not> is_space CHR ''A''" "\<not> is_space CHR ''F''" "\<not> is_space CHR ''B''"
  "\<not> is_space CHR ''P''" "\<not> is_space CHR ''R''"
  by (simp_all add: is_space_def)

lemma head_trim:
  "matches_at head_TAF x \<Longrightarrow> matches_at head_TAF (trim x)"
  "matches_at head_FM x \<Longrightarrow> matches_at head_FM (trim x)"
  "matches_at head_BECMG x \<Longrightarrow> matches_at head_BECMG (trim x)"
  "matches_at head_TEMPO x \<Longrightarrow> matches_at head_TEMPO (trim x)"
  "matches_at head_PROB x \<Longrightarrow> matches_at head_PROB (trim x)"
proof -
  show "matches_at head_TAF x \<Longrightarrow> matches_at head_TAF (trim x)"
  proof -
    assume "matches_at head_TAF x"
    then obtain r where x: "x = ''TA'' @ r" unfolding head_TAF_iff by auto
    have "trim (''TA'' @ r) = ''TA'' @ rev (dropWhile is_space (rev r))"
      by (rule trim_keeps_prefix) simp_all
    then show ?thesis unfolding x head_TAF_iff by simp
  qed
  show "matches_at head_PROB x \<Longrightarrow> matches_at head_PROB (trim x)"
  proof -
    assume "matches_at head_PROB x"
    then obtain r where x: "x = ''PR'' @ r" unfolding head_PROB_iff by auto
    have "trim (''PR'' @ r) = ''PR'' @ rev (dropWhile is_space (rev r))"
      by (rule trim_keeps_prefix) simp_all
    then show ?thesis unfolding x head_PROB_iff by simp
  qed
  show "matches_at head_FM x \<Longrightarrow> matches_at head_FM (trim x)"
  proof -
    assume "matches_at head_FM x"
    then obtain d1 d2 d3 d4 r where x: "x = [CHR ''F'', CHR ''M'', d1, d2, d3, d4] @ r"
      and d: "is_digit d1" "is_digit d2" "is_digit d3" "is_digit d4"
      unfolding head_FM_iff by auto
    have "trim ([CHR ''F'', CHR ''M'', d1, d2, d3, d4] @ r) =
        [CHR ''F'', CHR ''M'', d1, d2, d3, d4] @ rev (dropWhile is_space (rev r))"
      using d by (intro trim_keeps_prefix) (simp_all add: is_digit_not_space)
    then show ?thesis using d unfolding x head_FM_iff by simp
  qed
  show "matches_at head_BECMG x \<Longrightarrow> matches_at head_BECMG (trim x)"
  proof -
    assume "matches_at head_BECMG x"
    then obtain d1 d2 d3 d4 r where x: "x = (''BECMG '' @ [d1, d2, d3, d4]) @ r"
      and d: "is_digit d1" "is_digit d2" "is_digit d3" "is_digit d4"
      unfolding head_BECMG_iff by auto
    have "trim ((''BECMG '' @ [d1, d2, d3, d4]) @ r) =
        (''BECMG '' @ [d1, d2, d3, d4]) @ rev (dropWhile is_space (rev r))"
      using d by (intro trim_keeps_prefix) (simp_all add: is_digit_not_space)
    then show ?thesis using d unfolding x head_BECMG_iff by simp
  qed
  show "matches_at head_TEMPO x \<Longrightarrow> matches_at head_TEMPO (trim x)"
  proof -
    assume "matches_at head_TEMPO x"
    then obtain d1 d2 d3 d4 r where x: "x = (''TEMPO '' @ [d1, d2, d3, d4]) @ r"
      and d: "is_digit d1" "is_digit d2" "is_digit d3" "is_digit d4"
      unfolding head_TEMPO_iff by auto
    have "trim ((''TEMPO '' @ [d1, d2, d3, d4]) @ r) =
        (''TEMPO '' @ [d1, d2, d3, d4]) @ rev (dropWhile is_space (rev r))"
      using d by (intro trim_keeps_prefix) (simp_all add: is_digit_not_space)
    then show ?thesis using d unfolding x head_TEMPO_iff by simp
  qed
qed

lemma tafLines_ok:
  assumes "CHR 0x0A \<notin> set b" and "line_start b" and "l \<in> set (tafLines b)"
  shows "5 < length l \<and> \<not> is_space (hd l) \<and> \<not> is_space (last l) \<and>
         (matches_at head_TAF l \<or> stage4 l)"
proof -
  from assms(3) obtain x where x: "x \<in> set (split_nl (formattedTaf b))" and l: "l = trim x"
    and len: "5 < length l"
    by (auto simp: tafLines_def)
  from pieces_ok [OF assms(1,2) x] have "piece_ok x" .
  moreover have "x \<noteq> []" using len l by (auto simp: trim_def)
  ultimately have "matches_at head_TAF x \<or> stage4 x" by (simp add: piece_ok_def)
  then have "matches_at head_TAF l \<or> stage4 l"
    unfolding l stage4_def by (auto intro: head_trim)
  moreover have "trim x \<noteq> []" using len l by auto
  then have "\<not> is_space (hd l)" "\<not> is_space (last l)"
    unfolding l by (rule trim_ends)+
  ultimately show ?thesis using len by simp
qed

subsection \<open>The block handed to the splitting step\<close>

lemma collapse_from_no_nl: "CHR 0x0A \<notin> set (collapse_from f s)"
  by (induction s arbitrary: f) (auto simp: is_space_def)

lemma cleanText_no_nl: "CHR 0x0A \<notin> set (cleanText rawHtml)"
  by (simp add: cleanText_def collapse_ws_def collapse_from_no_nl)

lemma indexOf_from_ge: "indexOf b m from = Some idx \<Longrightarrow> min from (length b) \<le> idx"
  unfolding indexOf_def by (drule search_index_Some) simp

lemma endIndex_fold_bounds:
  "lo \<le> e \<Longrightarrow> e \<le> length b \<Longrightarrow> lo \<le> min 10 (length b) \<Longrightarrow>
   lo \<le> foldl (\<lambda>e m. case indexOf b m 10 of
                         Some idx \<Rightarrow> if idx < e then idx else e
                       | None \<Rightarrow> e) e ms \<and>
   foldl (\<lambda>e m. case indexOf b m 10 of
                   Some idx \<Rightarrow> if idx < e then idx else e
                 | None \<Rightarrow> e) e ms \<le> length b"
proof (induction ms arbitrary: e)
  case Nil
  then show ?case by simp
next
  case (Cons m ms)
  let ?e = "case indexOf b m 10 of Some idx \<Rightarrow> if idx < e then idx else e | None \<Rightarrow> e"
  have "lo \<le> ?e \<and> ?e \<le> length b"
  proof (cases "indexOf b m 10")
    case None
    with Cons.prems show ?thesis by simp
  next
    case (Some idx)
    from indexOf_from_ge [OF Some] Cons.prems have "lo \<le> idx" by simp
    with Some Cons.prems show ?thesis by simp
  qed
  then show ?case using Cons.IH [of ?e] Cons.prems(3) by simp
qed

lemma endIndex_bounds: "min 10 (length b) \<le> endIndex b \<and> endIndex b \<le> length b"
  unfolding endIndex_def by (rule endIndex_fold_bounds) simp_all

lemma matches_at_take_ge:
  assumes "matches_at h s" "length h \<le> n"
  shows "matches_at h (take n s)"
proof -
  from assms(1) have "length h \<le> length s" "matches_at h (take (length h) s)"
    using matches_at_take [of h s] by simp_all
  moreover have "take (length h) (take n s) = take (length h) s"
    using assms(2) by (simp add: min_def)
  ultimately show ?thesis
    using assms(2) matches_at_take [of h "take n s"] by simp
qed

lemma tafStart_Some:
  assumes "tafStart clean code = Some start"
  shows "startsWith (drop start clean) (''TAF: '' @ code) \<or>
         startsWith (drop start clean) (''TAF '' @ code) \<or>
         matches_at pat_FM (drop start clean) \<or> matches_at pat_BECMG (drop start clean)"
proof -
  from assms consider
    "search_index (\<lambda>t. startsWith t (''TAF: '' @ code)) clean 0 = Some start"
    | "search_index (\<lambda>t. startsWith t (''TAF '' @ code)) clean 0 = Some start"
    | "search_index (\<lambda>t. matches_at pat_FM t \<or> matches_at pat_BECMG t) clean 0 = Some start"
    by (auto simp: tafStart_def indexOf_def split: option.splits)
  then show ?thesis
  proof cases
    case 1
    from search_index_Some [OF this] show ?thesis by simp
  next
    case 2
    from search_index_Some [OF this] show ?thesis by simp
  next
    case 3
    from search_index_Some [OF this] show ?thesis by auto
  qed
qed

lemma block_line_start:
  assumes "tafStart clean code = Some start"
  shows "line_start (take (endIndex (drop start clean)) (drop start clean))"
proof -
  let ?b = "drop start clean"
  have e: "min 10 (length ?b) \<le> endIndex ?b" using endIndex_bounds [of ?b] by simp
  have lit: "line_start (take (endIndex ?b) ?b)"
    if sw: "startsWith ?b w" and w: "w = CHR ''T'' # CHR ''A'' # CHR ''F'' # r" for w r
  proof -
    from sw have "take (length w) ?b = w" by (simp only: startsWith_def)
    then have b: "?b = w @ drop (length w) ?b" by (metis append_take_drop_id)
    have "matches_at head_TAF ?b" unfolding head_TAF_iff using b w by simp
    moreover have "3 \<le> length ?b" using arg_cong [OF b, of length] w by simp
    then have "length head_TAF \<le> endIndex ?b" using e by (simp add: heads_unfold)
    ultimately have "matches_at head_TAF (take (endIndex ?b) ?b)" by (rule matches_at_take_ge)
    then show ?thesis by (simp add: line_start_def)
  qed
  from tafStart_Some [OF assms] consider
    "startsWith ?b (''TAF: '' @ code)" | "startsWith ?b (''TAF '' @ code)"
    | (fm) "matches_at pat_FM ?b" | (becmg) "matches_at pat_BECMG ?b"
    by blast
  then show ?thesis
  proof cases
    case 1
    then show ?thesis by (rule lit) simp
  next
    case 2
    then show ?thesis by (rule lit) simp
  next
    case fm
    from matches_at_length [OF fm] have "8 \<le> length ?b" by (simp add: pats_unfold)
    then have "length head_FM \<le> endIndex ?b" using e by (simp add: heads_unfold)
    with pat_imp_head(1) [OF fm] have "matches_at head_FM (take (endIndex ?b) ?b)"
      by (rule matches_at_take_ge)
    then show ?thesis by (simp add: line_start_def)
  next
    case becmg
    from matches_at_length [OF becmg] have "15 \<le> length ?b" by (simp add: pats_unfold)
    then have "length head_BECMG \<le> endIndex ?b" using e by (simp add: heads_unfold)
    with pat_imp_head(2) [OF becmg] have "matches_at head_BECMG (take (endIndex ?b) ?b)"
      by (rule matches_at_take_ge)
    then show ?thesis by (simp add: line_start_def)
  qed
qed

lemma parseTaf_entry:
  assumes "e \<in> set (parseTaf rawHtml code)"
  shows "\<exists>l i. e = tafEntry l i \<and> 5 < length l \<and> \<not> is_space (hd l) \<and> \<not> is_space (last l) \<and>
           (matches_at head_TAF l \<or> stage4 l)"
proof -
  let ?clean = "cleanText rawHtml"
  from assms obtain start where st: "tafStart ?clean code = Some start"
    by (cases "tafStart ?clean code") (auto simp: parseTaf_def)
  let ?block = "drop start ?clean"
  let ?b = "take (endIndex ?block) ?block"
  let ?lines = "tafLines ?b"
  from assms st have "e \<in> set (map (\<lambda>(line, index). tafEntry line index)
      (zip ?lines [0..<length ?lines]))"
    by (simp add: parseTaf_def Let_def)
  then obtain l i where li: "(l, i) \<in> set (zip ?lines [0..<length ?lines])" and e: "e = tafEntry l i"
    by auto
  from li have l: "l \<in> set ?lines" by (rule set_zip_leftD)
  have "set ?b \<subseteq> set ?clean"
    using set_take_subset [of "endIndex ?block" ?block] set_drop_subset [of start ?clean]
    by blast
  then have nl: "CHR 0x0A \<notin> set ?b" using cleanText_no_nl [of rawHtml] by blast
  from tafLines_ok [OF nl block_line_start [OF st] l] e show ?thesis by blast
qed

subsection \<open>The fields of an entry\<close>

lemma digit_val_le: "is_digit c \<Longrightarrow> digit_val c \<le> 9"
  by (auto simp: is_digit_def digit_val_def)

lemma two_digits:
  assumes "is_digit a" "is_digit b"
  shows "parseInt [a, b] = Num (int (dec_value [a, b]))" "dec_value [a, b] \<le> 99"
proof -
  show "parseInt [a, b] = Num (int (dec_value [a, b]))"
    using assms by (intro parseInt_digits) simp_all
  show "dec_value [a, b] \<le> 99"
    using digit_val_le [OF assms(1)] digit_val_le [OF assms(2)] by (simp add: dec_value_def)
qed

lemma tafEntry_raw [simp]: "raw (tafEntry l i) = l"
  by (simp add: tafEntry_def)

lemma tafEntry_FM:
  assumes "matches_at head_FM l"
  shows "type (tafEntry l i) = FM \<and> two_digit_field l 2 (day (tafEntry l i)) \<and>
         two_digit_field l 4 (hour (tafEntry l i))"
proof -
  from assms obtain d1 d2 d3 d4 r where
    l: "l = CHR ''F'' # CHR ''M'' # d1 # d2 # d3 # d4 # r"
    and d: "is_digit d1" "is_digit d2" "is_digit d3" "is_digit d4"
    unfolding head_FM_iff by blast
  show ?thesis
    using d two_digits [of d1 d2] two_digits [of d3 d4]
    by (simp add: l tafEntry_def startsWith_def substring_def two_digit_field_def)
qed

lemma tafEntry_BECMG:
  assumes "matches_at head_BECMG l"
  shows "type (tafEntry l i) = BECMG \<and> two_digit_field l 6 (day (tafEntry l i)) \<and>
         two_digit_field l 8 (hour (tafEntry l i))"
proof -
  from assms obtain d1 d2 d3 d4 r where
    l: "l = CHR ''B'' # CHR ''E'' # CHR ''C'' # CHR ''M'' # CHR ''G'' # CHR '' '' #
        d1 # d2 # d3 # d4 # r"
    and d: "is_digit d1" "is_digit d2" "is_digit d3" "is_digit d4"
    unfolding head_BECMG_iff by blast
  show ?thesis
    using d two_digits [of d1 d2] two_digits [of d3 d4]
    by (simp add: l tafEntry_def startsWith_def substring_def two_digit_field_def)
qed

lemma tafEntry_TEMPO:
  assumes "matches_at head_TEMPO l"
  shows "type (tafEntry l i) = TEMPO \<and> two_digit_field l 6 (day (tafEntry l i)) \<and>
         two_digit_field l 8 (hour (tafEntry l i))"
proof -
  from assms obtain d1 d2 d3 d4 r where
    l: "l = CHR ''T'' # CHR ''E'' # CHR ''M'' # CHR ''P'' # CHR ''O'' # CHR '' '' #
        d1 # d2 # d3 # d4 # r"
    and d: "is_digit d1" "is_digit d2" "is_digit d3" "is_digit d4"
    unfolding head_TEMPO_iff by blast
  show ?thesis
    using d two_digits [of d1 d2] two_digits [of d3 d4]
    by (simp add: l tafEntry_def startsWith_def substring_def two_digit_field_def)
qed

lemma tafEntry_other:
  assumes "matches_at head_TAF l \<or> matches_at head_PROB l"
  shows "(type (tafEntry l i) = HEADER \<or> type (tafEntry l i) = BASE) \<and>
         day (tafEntry l i) = None \<and> hour (tafEntry l i) = None"
proof -
  from assms obtain r where "l = CHR ''T'' # CHR ''A'' # r \<or> l = CHR ''P'' # CHR ''R'' # r"
    unfolding head_TAF_iff head_PROB_iff by blast
  then show ?thesis
    by (auto simp: tafEntry_def startsWith_def)
qed

lemma extractGust_number:
  "extractGust t = None \<or> (\<exists>n. extractGust t = Some (Num (int n)))"
proof (cases "gust_search t")
  case None
  then show ?thesis by (simp add: extractGust_def)
next
  case (Some g)
  from gust_search_sound [OF Some] have "gust_digits g" by (auto simp: gust_occurrence_def)
  from gust_digits_value [OF this] Some show ?thesis by (simp add: extractGust_def)
qed

lemma tafEntry_gust [simp]: "gust (tafEntry l i) = extractGust l"
  by (simp add: tafEntry_def)

lemma two_digit_field_Num: "two_digit_field l off v \<Longrightarrow> \<exists>n. v = Some (Num (int n)) \<and> n \<le> 99"
  by (auto simp: two_digit_field_def Let_def)

lemma entry_cases:
  assumes "e \<in> set (parseTaf rawHtml code)"
  obtains l i where "e = tafEntry l i" "5 < length l" "\<not> is_space (hd l) \<and> \<not> is_space (last l)"
    "matches_at head_TAF l \<or> matches_at head_PROB l \<or> matches_at head_FM l \<or>
     matches_at head_BECMG l \<or> matches_at head_TEMPO l"
  using parseTaf_entry [OF assms] unfolding stage4_def by blast

subsection \<open>Entries\<close>

text \<open>
  Claim C10. Every entry produced by \<open>parseTaf\<close> has these properties. When its kind is
  FM, the two characters at offsets 2 and 4 of its raw text are pairs of decimal digits
  and day and hour are the numbers they denote, between 0 and 99; when its kind is TEMPO
  or BECMG, the same holds at offsets 6 and 8. When its kind is HEADER or BASE, day and
  hour are absent. So day and hour are present exactly for the kinds FM, TEMPO and BECMG.
  The raw text is longer than 5 characters and trimmed: neither its first nor its last
  character is white space.
\<close>

theorem parseTaf_entry_invariant:
  "\<forall>e\<in>set (parseTaf rawHtml code).
     (type e = FM \<longrightarrow> two_digit_field (raw e) 2 (day e) \<and> two_digit_field (raw e) 4 (hour e)) \<and>
     (type e = TEMPO \<or> type e = BECMG \<longrightarrow>
        two_digit_field (raw e) 6 (day e) \<and> two_digit_field (raw e) 8 (hour e)) \<and>
     (type e = HEADER \<or> type e = BASE \<longrightarrow> day e = None \<and> hour e = None) \<and>
     \<not> is_space (hd (raw e)) \<and> \<not> is_space (last (raw e)) \<and> 5 < length (raw e)"
proof
  fix e assume "e \<in> set (parseTaf rawHtml code)"
  then obtain l i where e: "e = tafEntry l i" and len: "5 < length l"
    and tr: "\<not> is_space (hd l) \<and> \<not> is_space (last l)"
    and h: "matches_at head_TAF l \<or> matches_at head_PROB l \<or> matches_at head_FM l \<or>
     matches_at head_BECMG l \<or> matches_at head_TEMPO l"
    by (rule entry_cases)
  from h consider "matches_at head_TAF l \<or> matches_at head_PROB l" | "matches_at head_FM l"
    | "matches_at head_BECMG l" | "matches_at head_TEMPO l" by blast
  then show "(type e = FM \<longrightarrow> two_digit_field (raw e) 2 (day e) \<and> two_digit_field (raw e) 4 (hour e)) \<and>
     (type e = TEMPO \<or> type e = BECMG \<longrightarrow>
        two_digit_field (raw e) 6 (day e) \<and> two_digit_field (raw e) 8 (hour e)) \<and>
     (type e = HEADER \<or> type e = BASE \<longrightarrow> day e = None \<and> hour e = None) \<and>
     \<not> is_space (hd (raw e)) \<and> \<not> is_space (last (raw e)) \<and> 5 < length (raw e)"
  proof cases
    case 1
    from tafEntry_other [OF this, of i] len tr show ?thesis unfolding e by auto
  next
    case 2
    from tafEntry_FM [OF this, of i] len tr show ?thesis unfolding e by auto
  next
    case 3
    from tafEntry_BECMG [OF this, of i] len tr show ?thesis unfolding e by auto
  next
    case 4
    from tafEntry_TEMPO [OF this, of i] len tr show ?thesis unfolding e by auto
  qed
qed

text \<open>The witness reads a text with white space before the forecast and at the end of its
  last group; the raw texts of the two entries begin with \<^verbatim>\<open>T\<close> and \<^verbatim>\<open>F\<close> and end with
  \<^verbatim>\<open>T\<close>.\<close>

theorem parseTaf_entry_invariant_witness:
  "map raw (parseTaf ''  TAF KMIE 1212/1312 18012KT   FM121800 20015G22KT  '' ''KMIE'') =
     [''TAF KMIE 1212/1312 18012KT'', ''FM121800 20015G22KT''] \<and>
   type (parseTaf ''  TAF KMIE 1212/1312 18012KT   FM121800 20015G22KT  '' ''KMIE'' ! 1) = FM \<and>
   two_digit_field (raw (parseTaf ''  TAF KMIE 1212/1312 18012KT   FM121800 20015G22KT  '' ''KMIE'' ! 1)) 2
     (day (parseTaf ''  TAF KMIE 1212/1312 18012KT   FM121800 20015G22KT  '' ''KMIE'' ! 1)) \<and>
   day (parseTaf ''  TAF KMIE 1212/1312 18012KT   FM121800 20015G22KT  '' ''KMIE'' ! 1) = Some (Num 12) \<and>
   list_all (\<lambda>e. \<not> is_space (hd (raw e)) \<and> \<not> is_space (last (raw e)) \<and> 5 < length (raw e))
     (parseTaf ''  TAF KMIE 1212/1312 18012KT   FM121800 20015G22KT  '' ''KMIE'')"
proof -
  let ?P = "parseTaf ''  TAF KMIE 1212/1312 18012KT   FM121800 20015G22KT  '' ''KMIE''"
  have rw: "map raw ?P = [''TAF KMIE 1212/1312 18012KT'', ''FM121800 20015G22KT'']"
    by code_simp
  have len: "length ?P = 2" using arg_cong [OF rw, of length] by simp
  have ty: "type (?P ! 1) = FM" by code_simp
  have dy: "day (?P ! 1) = Some (Num 12)" by code_simp
  have mem: "?P ! 1 \<in> set ?P" using len by simp
  note inv = parseTaf_entry_invariant
    [of "''  TAF KMIE 1212/1312 18012KT   FM121800 20015G22KT  ''" "''KMIE''"]
  from inv mem ty have "two_digit_field (raw (?P ! 1)) 2 (day (?P ! 1))" by blast
  moreover from inv have "list_all (\<lambda>e. \<not> is_space (hd (raw e)) \<and> \<not> is_space (last (raw e)) \<and>
      5 < length (raw e)) ?P"
    by (simp add: list_all_iff)
  ultimately show ?thesis using rw ty dy by simp
qed

text \<open>
  Claim C8. \<open>parseTaf\<close> is a total function built from operations that do not raise on
  strings, so it returns a list for every HTML text and station code. In every entry of
  that list each of the fields day, hour and gust is either absent or a number; the
  not-a-number value of \<^verbatim>\<open>parseInt\<close> never reaches an entry, because a line classified as
  FM, TEMPO or BECMG always carries digits at the offsets read.
\<close>

theorem parseTaf_no_invalid_number:
  "\<forall>e\<in>set (parseTaf rawHtml code).
     (day e = None \<or> (\<exists>n. day e = Some (Num (int n)) \<and> n \<le> 99)) \<and>
     (hour e = None \<or> (\<exists>n. hour e = Some (Num (int n)) \<and> n \<le> 99)) \<and>
     (gust e = None \<or> (\<exists>n. gust e = Some (Num (int n))))"
proof
  fix e assume "e \<in> set (parseTaf rawHtml code)"
  then obtain l i where e: "e = tafEntry l i"
    and h: "matches_at head_TAF l \<or> matches_at head_PROB l \<or> matches_at head_FM l \<or>
     matches_at head_BECMG l \<or> matches_at head_TEMPO l"
    by (rule entry_cases)
  have g: "gust e = None \<or> (\<exists>n. gust e = Some (Num (int n)))"
    unfolding e using extractGust_number [of l] by simp
  from h consider "matches_at head_TAF l \<or> matches_at head_PROB l" | "matches_at head_FM l"
    | "matches_at head_BECMG l" | "matches_at head_TEMPO l" by blast
  then have "(day e = None \<or> (\<exists>n. day e = Some (Num (int n)) \<and> n \<le> 99)) \<and>
     (hour e = None \<or> (\<exists>n. hour e = Some (Num (int n)) \<and> n \<le> 99))"
  proof cases
    case 1
    from tafEntry_other [OF this, of i] show ?thesis unfolding e by simp
  next
    case 2
    from tafEntry_FM [OF this, of i] show ?thesis
      unfolding e by (blast dest: two_digit_field_Num)
  next
    case 3
    from tafEntry_BECMG [OF this, of i] show ?thesis
      unfolding e by (blast dest: two_digit_field_Num)
  next
    case 4
    from tafEntry_TEMPO [OF this, of i] show ?thesis
      unfolding e by (blast dest: two_digit_field_Num)
  qed
  with g show "(day e = None \<or> (\<exists>n. day e = Some (Num (int n)) \<and> n \<le> 99)) \<and>
     (hour e = None \<or> (\<exists>n. hour e = Some (Num (int n)) \<and> n \<le> 99)) \<and>
     (gust e = None \<or> (\<exists>n. gust e = Some (Num (int n))))"
    by blast
qed

theorem parseTaf_no_invalid_number_witness:
  "parseTaf ''<pre>TAF KMIE TEMPO 12 FM1218 BECMG 1300/13 G25KT</pre>'' ''KMIE'' \<noteq> [] \<and>
   list_all (\<lambda>e. day e \<noteq> Some NaN \<and> hour e \<noteq> Some NaN \<and> gust e \<noteq> Some NaN)
     (parseTaf ''<pre>TAF KMIE TEMPO 12 FM1218 BECMG 1300/13 G25KT</pre>'' ''KMIE'')"
proof -
  let ?P = "parseTaf ''<pre>TAF KMIE TEMPO 12 FM1218 BECMG 1300/13 G25KT</pre>'' ''KMIE''"
  have ne: "length ?P = 1" by code_simp
  note inv = parseTaf_no_invalid_number
    [of "''<pre>TAF KMIE TEMPO 12 FM1218 BECMG 1300/13 G25KT</pre>''" "''KMIE''"]
  have "list_all (\<lambda>e. day e \<noteq> Some NaN \<and> hour e \<noteq> Some NaN \<and> gust e \<noteq> Some NaN) ?P"
    unfolding list_all_iff
  proof
    fix e assume "e \<in> set ?P"
    with inv have "(day e = None \<or> (\<exists>n. day e = Some (Num (int n)) \<and> n \<le> 99)) \<and>
      (hour e = None \<or> (\<exists>n. hour e = Some (Num (int n)) \<and> n \<le> 99)) \<and>
      (gust e = None \<or> (\<exists>n. gust e = Some (Num (int n))))" by blast
    then show "day e \<noteq> Some NaN \<and> hour e \<noteq> Some NaN \<and> gust e \<noteq> Some NaN" by auto
  qed
  moreover have "?P \<noteq> []" using ne by auto
  ultimately show ?thesis by simp
qed

section \<open>Theorems: the active TAF entry\<close>

subsection \<open>The calendar\<close>

lemma div_bounds:
  fixes x n :: int
  assumes "0 < n"
  shows "n * (x div n) \<le> x" "x < n * (x div n) + n"
proof -
  have e: "x = n * (x div n) + x mod n" by simp
  have m: "0 \<le> x mod n" "x mod n < n" using assms by simp_all
  show "n * (x div n) \<le> x" using e m(1) by linarith
  show "x < n * (x div n) + n" using e m(2) by linarith
qed

lemma DayFromYear_bounds:
  "146097 * (y - 1970) - 506 \<le> 400 * DayFromYear y"
  "400 * DayFromYear y \<le> 146097 * (y - 1970) + 589"
proof -
  define a where "a = (y - 1969) div 4"
  define b where "b = (y - 1901) div 100"
  define c where "c = (y - 1601) div 400"
  have a: "4 * a \<le> y - 1969" "y - 1969 < 4 * a + 4"
    unfolding a_def by (rule div_bounds, simp)+
  have b: "100 * b \<le> y - 1901" "y - 1901 < 100 * b + 100"
    unfolding b_def by (rule div_bounds, simp)+
  have c: "400 * c \<le> y - 1601" "y - 1601 < 400 * c + 400"
    unfolding c_def by (rule div_bounds, simp)+
  have f: "DayFromYear y = 365 * (y - 1970) + a - b + c"
    by (simp add: DayFromYear_def a_def b_def c_def)
  have "100 * (y - 1972) \<le> 400 * a" using a(2) by simp
  moreover have "400 * b \<le> 4 * (y - 1901)" using b(1) by simp
  moreover have "y - 2000 \<le> 400 * c" using c(2) by simp
  ultimately show "146097 * (y - 1970) - 506 \<le> 400 * DayFromYear y"
    unfolding f by simp
  have "400 * a \<le> 100 * (y - 1969)" using a(1) by simp
  moreover have "4 * (y - 2000) \<le> 400 * b" using b(2) by simp
  moreover have "400 * c \<le> y - 1601" using c(1) by simp
  ultimately show "400 * DayFromYear y \<le> 146097 * (y - 1970) + 589"
    unfolding f by simp
qed

lemma YearFromTime_largest:
  "DayFromYear (YearFromTime t) \<le> Day t \<and> Day t < DayFromYear (YearFromTime t + 1)"
proof -
  define d where "d = Day t"
  define q where "q = (d * 400) div 146097"
  have q: "146097 * q \<le> d * 400" "d * 400 < 146097 * q + 146097"
    unfolding q_def by (rule div_bounds, simp)+
  have "400 * DayFromYear (1970 + q - 1) \<le> 146097 * q"
    using DayFromYear_bounds(2) [of "1970 + q - 1"] by simp
  with q(1) have "400 * DayFromYear (1970 + q - 1) \<le> 400 * d" by simp
  then have lo: "DayFromYear (1970 + q - 1) \<le> d" by simp
  have "146097 * q + 146097 \<le> 400 * DayFromYear (1970 + q + 1 + 1)"
    using DayFromYear_bounds(1) [of "1970 + q + 1 + 1"] by simp
  with q(2) have "400 * d < 400 * DayFromYear (1970 + q + 1 + 1)" by simp
  then have hi: "d < DayFromYear (1970 + q + 1 + 1)" by simp
  have "DayFromYear (YearFromTime t) \<le> d \<and> d < DayFromYear (YearFromTime t + 1)"
    using lo hi unfolding YearFromTime_def Let_def d_def [symmetric] q_def [symmetric]
    by (simp split: if_splits)
  then show ?thesis by (simp only: d_def)
qed

subsection \<open>The selection loop\<close>

lemma active_loop_step:
  "active_loop now (line # rest) idx acc =
   active_loop now rest (Suc idx)
     (if is_candidate line idx \<and> has_started now line then int idx else acc)"
  by (cases "type line"; cases "getEntryDate now line")
    (auto simp: is_candidate_def has_started_def)

lemma active_loop_none:
  "(\<forall>k<length ls. \<not> (is_candidate (ls ! k) (idx + k) \<and> has_started now (ls ! k))) \<Longrightarrow>
   active_loop now ls idx acc = acc"
proof (induction ls arbitrary: idx acc)
  case Nil
  show ?case by simp
next
  case (Cons l ls)
  have h: "\<not> (is_candidate l idx \<and> has_started now l)"
    using Cons.prems [rule_format, of 0] by simp
  have "\<forall>k<length ls. \<not> (is_candidate (ls ! k) (Suc idx + k) \<and> has_started now (ls ! k))"
  proof (intro allI impI)
    fix k assume "k < length ls"
    then show "\<not> (is_candidate (ls ! k) (Suc idx + k) \<and> has_started now (ls ! k))"
      using Cons.prems [rule_format, of "Suc k"] by simp
  qed
  from Cons.IH [OF this] h show ?case by (simp only: active_loop_step if_False)
qed

lemma active_loop_last:
  "k < length ls \<Longrightarrow> is_candidate (ls ! k) (idx + k) \<and> has_started now (ls ! k) \<Longrightarrow>
   (\<forall>j<length ls. is_candidate (ls ! j) (idx + j) \<and> has_started now (ls ! j) \<longrightarrow> j \<le> k) \<Longrightarrow>
   active_loop now ls idx acc = int (idx + k)"
proof (induction ls arbitrary: idx acc k)
  case Nil
  then show ?case by simp
next
  case (Cons l ls)
  show ?case
  proof (cases k)
    case 0
    have "\<forall>j<length ls. \<not> (is_candidate (ls ! j) (Suc idx + j) \<and> has_started now (ls ! j))"
    proof (intro allI impI notI)
      fix j assume j: "j < length ls"
        and "is_candidate (ls ! j) (Suc idx + j) \<and> has_started now (ls ! j)"
      then have "Suc j \<le> k" using Cons.prems(3) [rule_format, of "Suc j"] by simp
      with 0 show False by simp
    qed
    then have r: "active_loop now ls (Suc idx) (int idx) = int idx"
      by (rule active_loop_none)
    have c0: "is_candidate l idx \<and> has_started now l" using Cons.prems(2) 0 by simp
    have "active_loop now (l # ls) idx acc = active_loop now ls (Suc idx) (int idx)"
      unfolding active_loop_step using c0 by simp
    with r 0 show ?thesis by simp
  next
    case (Suc k')
    have 1: "k' < length ls" using Cons.prems(1) Suc by simp
    have 2: "is_candidate (ls ! k') (Suc idx + k') \<and> has_started now (ls ! k')"
      using Cons.prems(2) Suc by simp
    have 3: "\<forall>j<length ls. is_candidate (ls ! j) (Suc idx + j) \<and> has_started now (ls ! j) \<longrightarrow> j \<le> k'"
    proof (intro allI impI)
      fix j assume "j < length ls"
        and "is_candidate (ls ! j) (Suc idx + j) \<and> has_started now (ls ! j)"
      then have "Suc j \<le> k" using Cons.prems(3) [rule_format, of "Suc j"] by simp
      with Suc show "j \<le> k'" by simp
    qed
    from Cons.IH [OF 1 2 3] have "active_loop now ls (Suc idx) acc' = int (Suc idx + k')" for acc' .
    then show ?thesis unfolding active_loop_step using Suc by simp
  qed
qed

subsection \<open>What the loop computes\<close>

text \<open>
  The index returned is that of the last started candidate in the order of the sequence,
  and \<open>-1\<close> when no candidate has started.
\<close>

lemma getActiveTafIndex_last_started:
  "((\<forall>j<length tafData. \<not> (is_candidate (tafData ! j) j \<and> has_started now (tafData ! j))) \<longrightarrow>
      getActiveTafIndex now tafData = - 1) \<and>
   (k < length tafData \<and> is_candidate (tafData ! k) k \<and> has_started now (tafData ! k) \<and>
    (\<forall>j<length tafData. is_candidate (tafData ! j) j \<and> has_started now (tafData ! j) \<longrightarrow> j \<le> k) \<longrightarrow>
      getActiveTafIndex now tafData = int k)"
proof (intro conjI impI)
  assume "\<forall>j<length tafData. \<not> (is_candidate (tafData ! j) j \<and> has_started now (tafData ! j))"
  then have "active_loop now tafData 0 (- 1) = - 1"
    by (intro active_loop_none) simp
  then show "getActiveTafIndex now tafData = - 1"
    by (simp add: getActiveTafIndex_def)
next
  assume a: "k < length tafData \<and> is_candidate (tafData ! k) k \<and> has_started now (tafData ! k) \<and>
    (\<forall>j<length tafData. is_candidate (tafData ! j) j \<and> has_started now (tafData ! j) \<longrightarrow> j \<le> k)"
  then have "active_loop now tafData 0 (- 1) = int (0 + k)"
    by (intro active_loop_last) simp_all
  moreover from a have "tafData \<noteq> []" by auto
  ultimately show "getActiveTafIndex now tafData = int k"
    by (simp add: getActiveTafIndex_def)
qed

subsection \<open>The active entry\<close>

text \<open>
  Claim C7 says that among the candidates whose start time is not after the current time
  the one with the latest start time is marked active. The code departs from it on the
  forecast \<open>prob_after_fm\<close>, the list that \<open>parseTaf\<close> produces from a forecast with a
  PROB30 group behind an FM group. The PROB line is an entry of kind BASE without day and
  hour, so its start time is the epoch. At 19:00 UTC on the 12th the FM entry at index 1
  has started at 18:00 of that day, later than the epoch, yet the index returned is 2,
  that of the PROB line. At 17:00 UTC, before the FM group starts, the index returned is
  2 as well, although the only period in force is the initial one at index 0.
\<close>

theorem getActiveTafIndex_prob_line_active:
  "parseTaf ''TAF KMIE 121130Z 1212/1312 18012KT FM121800 20015G22KT PROB30 1300/1302 22010KT'' ''KMIE''
     = prob_after_fm \<and>
   map type prob_after_fm = [HEADER, FM, BASE] \<and>
   map (getEntryDate nov12_1900) prob_after_fm = [Some 0, Some nov12_1800, Some 0] \<and>
   0 < nov12_1800 \<and> nov12_1800 \<le> nov12_1900 \<and>
   getActiveTafIndex nov12_1900 prob_after_fm = 2 \<and>
   map (getEntryDate nov12_1700) prob_after_fm = [Some 0, Some nov12_1800, Some 0] \<and>
   nov12_1700 < nov12_1800 \<and>
   getActiveTafIndex nov12_1700 prob_after_fm = 2"
  by code_simp
end
